theory Spec2Isabelle
  imports Main "HOL-Library.Word"
begin

unbundle bit_operations_syntax

section \<open>The got command-line orchestrator (cmd/got/main.go)\<close>

text \<open>
  The program is a single Go file. It reads three sources of URL candidates (piped
  standard input, a batch file, the positional arguments), normalises each candidate
  with \<open>getURL\<close> and submits one download request per candidate to the download
  engine, stopping at the first error.

  Go strings are byte sequences, so a Go \<open>string\<close> is an Isabelle \<open>string\<close>
  (a list of 8-bit characters); a non-ASCII rune is the bytes of its UTF-8 encoding.
  Every \<open>return err\<close> of the source is a branch of the model that yields
  \<open>Some err\<close>; global variables and observable effects (requests submitted to the
  engine, bytes printed, directories created) are fields of an explicit state record.
\<close>

subsection \<open>Bytes\<close>

definition byte :: "char \<Rightarrow> nat" where
  "byte c = of_char c"

definition isLetter :: "char \<Rightarrow> bool" where
  "isLetter c \<longleftrightarrow> (97 \<le> byte c \<and> byte c \<le> 122) \<or> (65 \<le> byte c \<and> byte c \<le> 90)"

definition isDigit :: "char \<Rightarrow> bool" where
  "isDigit c \<longleftrightarrow> 48 \<le> byte c \<and> byte c \<le> 57"

subsection \<open>Package strings of the Go standard library\<close>

text \<open>
  The functions of package \<open>strings\<close> that the program (and \<open>net/url\<close>) calls,
  following their documentation. \<open>Cut s sep\<close> is \<open>None\<close> when \<open>sep\<close> does not
  occur (Go's \<open>found = false\<close>), and otherwise the text before and after its first
  occurrence.
\<close>

definition HasPrefix :: "string \<Rightarrow> string \<Rightarrow> bool" where
  "HasPrefix s p \<longleftrightarrow> take (length p) s = p"

definition HasSuffix :: "string \<Rightarrow> string \<Rightarrow> bool" where
  "HasSuffix s p \<longleftrightarrow> length p \<le> length s \<and> drop (length s - length p) s = p"

fun Cut :: "string \<Rightarrow> string \<Rightarrow> (string \<times> string) option" where
  "Cut [] sep = (if sep = [] then Some ([], []) else None)"
| "Cut (c # cs) sep =
     (if HasPrefix (c # cs) sep then Some ([], drop (length sep) (c # cs))
      else (case Cut cs sep of
              None \<Rightarrow> None
            | Some (front, back) \<Rightarrow> Some (c # front, back)))"

definition Contains :: "string \<Rightarrow> string \<Rightarrow> bool" where
  "Contains s sub \<longleftrightarrow> Cut s sub \<noteq> None"

text \<open>
  \<open>SplitN s sep n\<close> for a non-empty separator and \<open>n \<ge> 0\<close>: at most \<open>n\<close> pieces, the
  last one the unsplit remainder; \<open>n = 0\<close> gives no piece at all.
\<close>

fun SplitN :: "string \<Rightarrow> string \<Rightarrow> nat \<Rightarrow> string list" where
  "SplitN s sep 0 = []"
| "SplitN s sep (Suc 0) = [s]"
| "SplitN s sep (Suc (Suc n)) =
     (case Cut s sep of
        None \<Rightarrow> [s]
      | Some (front, back) \<Rightarrow> front # SplitN back sep (Suc n))"

text \<open>
  \<open>LastIndexByte s c\<close>: the index of the last occurrence of the byte \<open>c\<close>, or
  \<open>None\<close> for Go's \<open>-1\<close>.
\<close>

fun LastIndexByte :: "string \<Rightarrow> char \<Rightarrow> nat option" where
  "LastIndexByte [] c = None"
| "LastIndexByte (x # xs) c =
     (case LastIndexByte xs c of
        Some i \<Rightarrow> Some (Suc i)
      | None \<Rightarrow> if x = c then Some 0 else None)"

text \<open>
  \<open>ToLower\<close> on bytes: the program only reaches it through \<open>url.Parse\<close>, on a
  scheme, which consists of ASCII letters, digits and \<open>+ - .\<close>; on such text the
  Unicode mapping of Go is the ASCII one.
\<close>

definition toLowerByte :: "char \<Rightarrow> char" where
  "toLowerByte c = (if 65 \<le> byte c \<and> byte c \<le> 90 then char_of (byte c + 32) else c)"

definition ToLower :: "string \<Rightarrow> string" where
  "ToLower s = map toLowerByte s"

text \<open>
  \<open>TrimSpace\<close> removes all leading and trailing white space, as defined by Unicode
  (\<open>unicode.IsSpace\<close>): the runes U+0009 to U+000D, U+0020, U+0085, U+00A0, U+1680,
  U+2000 to U+200A, U+2028, U+2029, U+202F, U+205F and U+3000. A Go string holds
  them in UTF-8, and the decoder accepts the shortest encoding of a rune only, so a
  string starts (ends) with a white-space rune exactly when it starts (ends) with one
  of the byte sequences below. Go trims the left end first, then the right end.
\<close>

definition space_encodings :: "string list" where
  "space_encodings =
    [[CHR 0x09], [CHR 0x0A], [CHR 0x0B], [CHR 0x0C], [CHR 0x0D], [CHR 0x20],
     [CHR 0xC2, CHR 0x85], [CHR 0xC2, CHR 0xA0],
     [CHR 0xE1, CHR 0x9A, CHR 0x80],
     [CHR 0xE2, CHR 0x80, CHR 0x80], [CHR 0xE2, CHR 0x80, CHR 0x81],
     [CHR 0xE2, CHR 0x80, CHR 0x82], [CHR 0xE2, CHR 0x80, CHR 0x83],
     [CHR 0xE2, CHR 0x80, CHR 0x84], [CHR 0xE2, CHR 0x80, CHR 0x85],
     [CHR 0xE2, CHR 0x80, CHR 0x86], [CHR 0xE2, CHR 0x80, CHR 0x87],
     [CHR 0xE2, CHR 0x80, CHR 0x88], [CHR 0xE2, CHR 0x80, CHR 0x89],
     [CHR 0xE2, CHR 0x80, CHR 0x8A],
     [CHR 0xE2, CHR 0x80, CHR 0xA8], [CHR 0xE2, CHR 0x80, CHR 0xA9],
     [CHR 0xE2, CHR 0x80, CHR 0xAF],
     [CHR 0xE2, CHR 0x81, CHR 0x9F],
     [CHR 0xE3, CHR 0x80, CHR 0x80]]"

definition leading :: "string list \<Rightarrow> string \<Rightarrow> string option" where
  "leading encs s = List.find (\<lambda>e. e \<noteq> [] \<and> take (length e) s = e) encs"

function trim_leading :: "string list \<Rightarrow> string \<Rightarrow> string" where
  "trim_leading encs s =
     (case leading encs s of
        None \<Rightarrow> s
      | Some e \<Rightarrow> trim_leading encs (drop (length e) s))"
  by pat_completeness auto
termination
proof (relation "measure (\<lambda>(encs, s). length s)")
  show "wf (measure (\<lambda>(encs, s). length s))"
    by simp
next
  fix encs :: "string list" and s e :: string
  assume "leading encs s = Some e"
  then have "e \<noteq> []" and "take (length e) s = e"
    by (auto simp: leading_def find_Some_iff)
  then have "s \<noteq> []" and "0 < length e"
    by auto
  then show "((encs, drop (length e) s), (encs, s)) \<in> measure (\<lambda>(encs, s). length s)"
    by simp
qed

definition TrimLeftSpace :: "string \<Rightarrow> string" where
  "TrimLeftSpace s = trim_leading space_encodings s"

definition TrimRightSpace :: "string \<Rightarrow> string" where
  "TrimRightSpace s = rev (trim_leading (map rev space_encodings) (rev s))"

definition TrimSpace :: "string \<Rightarrow> string" where
  "TrimSpace s = TrimRightSpace (TrimLeftSpace s)"

subsection \<open>Errors\<close>

text \<open>
  A Go \<open>error\<close> is an interface value; the model has one constructor for each
  concrete error type the program can return. The spec's taxonomy maps onto it:
  FormatError is the \<open>ErrorString\<close> made by \<open>errors.New("malformatted header " + h)\<close>,
  IOError is a \<open>PathError\<close> of package \<open>os\<close>, InvalidURLError is the \<open>URLError\<close>
  of \<open>url.Parse\<close>, and an engine error is whatever value the engine returns.
  \<open>RuntimePanic\<close> stands for an index out of range.
\<close>

datatype errno = ENOENT | EEXIST | EACCES | ENOTDIR | EIO

datatype error =
    ErrorString string
  | EscapeError string
  | InvalidHostError string
  | URLError string string error
  | PathError string string errno
  | RuntimePanic

definition IsNotExist :: "error option \<Rightarrow> bool" where
  "IsNotExist err \<longleftrightarrow> (case err of Some (PathError oper path ENOENT) \<Rightarrow> True | _ \<Rightarrow> False)"

subsection \<open>Package net/url of the Go standard library\<close>

text \<open>
  \<open>getURL\<close> calls \<open>url.Parse\<close> and \<open>URL.String\<close>. They are modelled from the
  library's source (the text of Go 1.19 to 1.22): \<open>getScheme\<close>, the split of query
  and fragment, opaque and rootless references, the authority with user information
  and host, percent-decoding with its per-component rules, and the re-serialisation
  with percent-encoding.
\<close>

record Userinfo =
  username :: string
  password :: string
  passwordSet :: bool

record url_URL =
  Scheme :: string
  Opaque :: string
  User :: "Userinfo option"
  Host :: string
  Path :: string
  RawPath :: string
  OmitHost :: bool
  ForceQuery :: bool
  RawQuery :: string
  Fragment :: string
  RawFragment :: string

definition new_URL :: url_URL where
  "new_URL = \<lparr>Scheme = [], Opaque = [], User = None, Host = [], Path = [], RawPath = [],
     OmitHost = False, ForceQuery = False, RawQuery = [], Fragment = [], RawFragment = []\<rparr>"

datatype encoding =
  encodePath | encodePathSegment | encodeHost | encodeZone | encodeUserPassword
  | encodeQueryComponent | encodeFragment

definition ishex :: "char \<Rightarrow> bool" where
  "ishex c \<longleftrightarrow> isDigit c \<or> (97 \<le> byte c \<and> byte c \<le> 102) \<or> (65 \<le> byte c \<and> byte c \<le> 70)"

definition unhex :: "char \<Rightarrow> nat" where
  "unhex c =
     (if isDigit c then byte c - 48
      else if 97 \<le> byte c \<and> byte c \<le> 102 then byte c - 97 + 10
      else if 65 \<le> byte c \<and> byte c \<le> 70 then byte c - 65 + 10
      else 0)"

definition upperhex :: "nat \<Rightarrow> char" where
  "upperhex n = ''0123456789ABCDEF'' ! n"

definition shouldEscape :: "char \<Rightarrow> encoding \<Rightarrow> bool" where
  "shouldEscape c mode =
     (if isLetter c \<or> isDigit c then False
      else if (mode = encodeHost \<or> mode = encodeZone) \<and>
              c \<in> set (''!$&()*+,;=:[]<>'' @ [CHR 0x27, CHR 0x22]) then False
      else if c \<in> set ''-_.~'' then False
      else if c \<in> set ''$&+,/:;=?@'' \<and> mode = encodePath then c = CHR ''?''
      else if c \<in> set ''$&+,/:;=?@'' \<and> mode = encodePathSegment
        then c = CHR ''/'' \<or> c = CHR '';'' \<or> c = CHR '','' \<or> c = CHR ''?''
      else if c \<in> set ''$&+,/:;=?@'' \<and> mode = encodeUserPassword
        then c = CHR ''@'' \<or> c = CHR ''/'' \<or> c = CHR ''?'' \<or> c = CHR '':''
      else if c \<in> set ''$&+,/:;=?@'' \<and> mode = encodeQueryComponent then True
      else if c \<in> set ''$&+,/:;=?@'' \<and> mode = encodeFragment then False
      else if mode = encodeFragment \<and> c \<in> set ''!()*'' then False
      else True)"

text \<open>
  \<open>unescape\<close> first checks that every \<open>%\<close> starts a well-formed escape that the
  component allows (\<open>unescape_check\<close>), then decodes (\<open>unescape_bytes\<close>).
\<close>

fun unescape_check :: "encoding \<Rightarrow> string \<Rightarrow> error option" where
  "unescape_check mode [] = None"
| "unescape_check mode (c # cs) =
     (if c = CHR ''%'' then
        (case cs of
           h1 # h2 # rest \<Rightarrow>
             if \<not> ishex h1 \<or> \<not> ishex h2 then Some (EscapeError [c, h1, h2])
             else if mode = encodeHost \<and> unhex h1 < 8 \<and> [c, h1, h2] \<noteq> ''%25''
               then Some (EscapeError [c, h1, h2])
             else if mode = encodeZone \<and> [c, h1, h2] \<noteq> ''%25'' \<and>
                     char_of (unhex h1 * 16 + unhex h2) \<noteq> CHR '' '' \<and>
                     shouldEscape (char_of (unhex h1 * 16 + unhex h2)) encodeHost
               then Some (EscapeError [c, h1, h2])
             else unescape_check mode rest
         | _ \<Rightarrow> Some (EscapeError (c # cs)))
      else if (mode = encodeHost \<or> mode = encodeZone) \<and> byte c < 128 \<and>
              shouldEscape c encodeHost
        then Some (InvalidHostError [c])
      else unescape_check mode cs)"

fun unescape_bytes :: "encoding \<Rightarrow> string \<Rightarrow> string" where
  "unescape_bytes mode (c # h1 # h2 # rest) =
     (if c = CHR ''%'' then char_of (unhex h1 * 16 + unhex h2) # unescape_bytes mode rest
      else if c = CHR ''+'' \<and> mode = encodeQueryComponent
        then CHR '' '' # unescape_bytes mode (h1 # h2 # rest)
      else c # unescape_bytes mode (h1 # h2 # rest))"
| "unescape_bytes mode (c # cs) =
     (if c = CHR ''+'' \<and> mode = encodeQueryComponent then CHR '' '' # unescape_bytes mode cs
      else c # unescape_bytes mode cs)"
| "unescape_bytes mode [] = []"

definition unescape :: "string \<Rightarrow> encoding \<Rightarrow> error + string" where
  "unescape s mode =
     (case unescape_check mode s of
        Some err \<Rightarrow> Inl err
      | None \<Rightarrow> Inr (unescape_bytes mode s))"

definition escape :: "string \<Rightarrow> encoding \<Rightarrow> string" where
  "escape s mode =
     concat (map (\<lambda>c. if shouldEscape c mode
                       then (if c = CHR '' '' \<and> mode = encodeQueryComponent then ''+''
                             else [CHR ''%'', upperhex (byte c div 16), upperhex (byte c mod 16)])
                       else [c]) s)"

definition validEncoded :: "string \<Rightarrow> encoding \<Rightarrow> bool" where
  "validEncoded s mode =
     list_all (\<lambda>c. c \<in> set (''!$&()*+,;=:@[]%'' @ [CHR 0x27]) \<or> \<not> shouldEscape c mode) s"

definition stringContainsCTLByte :: "string \<Rightarrow> bool" where
  "stringContainsCTLByte s = list_ex (\<lambda>b. byte b < 32 \<or> byte b = 127) s"

text \<open>
  \<open>getScheme\<close> scans for the first colon; \<open>pre\<close> is the text already scanned, so
  Go's \<open>i == 0\<close> is \<open>pre = []\<close>.
\<close>

fun getScheme_loop :: "string \<Rightarrow> string \<Rightarrow> string \<Rightarrow> error + (string \<times> string)" where
  "getScheme_loop rawURL pre [] = Inr ([], rawURL)"
| "getScheme_loop rawURL pre (c # cs) =
     (if isLetter c then getScheme_loop rawURL (pre @ [c]) cs
      else if isDigit c \<or> c = CHR ''+'' \<or> c = CHR ''-'' \<or> c = CHR ''.'' then
        (if pre = [] then Inr ([], rawURL) else getScheme_loop rawURL (pre @ [c]) cs)
      else if c = CHR '':'' then
        (if pre = [] then Inl (ErrorString ''missing protocol scheme'') else Inr (pre, cs))
      else Inr ([], rawURL))"

definition getScheme :: "string \<Rightarrow> error + (string \<times> string)" where
  "getScheme rawURL = getScheme_loop rawURL [] rawURL"

definition validOptionalPort :: "string \<Rightarrow> bool" where
  "validOptionalPort port =
     (case port of
        [] \<Rightarrow> True
      | c # ds \<Rightarrow> c = CHR '':'' \<and> list_all isDigit ds)"

definition validUserinfo :: "string \<Rightarrow> bool" where
  "validUserinfo s =
     list_all (\<lambda>r. isLetter r \<or> isDigit r \<or> r \<in> set (''-._:~!$&()*+,;=%@'' @ [CHR 0x27])) s"

definition parseHost :: "string \<Rightarrow> error + string" where
  "parseHost host =
     (if HasPrefix host ''['' then
        (case LastIndexByte host CHR '']'' of
           None \<Rightarrow> Inl (ErrorString (''missing '' @ [CHR 0x27] @ '']'' @ [CHR 0x27] @ '' in host''))
         | Some i \<Rightarrow>
             if \<not> validOptionalPort (drop (Suc i) host)
             then Inl (ErrorString (''invalid port '' @ [CHR 0x22] @ drop (Suc i) host
                                     @ [CHR 0x22] @ '' after host''))
             else
               (case Cut (take i host) ''%25'' of
                  Some (front, back) \<Rightarrow>
                    (case unescape front encodeHost of
                       Inl err \<Rightarrow> Inl err
                     | Inr host1 \<Rightarrow>
                         (case unescape (drop (length front) (take i host)) encodeZone of
                            Inl err \<Rightarrow> Inl err
                          | Inr host2 \<Rightarrow>
                              (case unescape (drop i host) encodeHost of
                                 Inl err \<Rightarrow> Inl err
                               | Inr host3 \<Rightarrow> Inr (host1 @ host2 @ host3))))
                | None \<Rightarrow> unescape host encodeHost))
      else
        (case LastIndexByte host CHR '':'' of
           Some i \<Rightarrow>
             if \<not> validOptionalPort (drop i host)
             then Inl (ErrorString (''invalid port '' @ [CHR 0x22] @ drop i host
                                     @ [CHR 0x22] @ '' after host''))
             else unescape host encodeHost
         | None \<Rightarrow> unescape host encodeHost))"

definition parseAuthority :: "string \<Rightarrow> error + (Userinfo option \<times> string)" where
  "parseAuthority authority =
     (case LastIndexByte authority CHR ''@'' of
        None \<Rightarrow>
          (case parseHost authority of
             Inl err \<Rightarrow> Inl err
           | Inr host \<Rightarrow> Inr (None, host))
      | Some i \<Rightarrow>
          (case parseHost (drop (Suc i) authority) of
             Inl err \<Rightarrow> Inl err
           | Inr host \<Rightarrow>
               let userinfo = take i authority in
               if \<not> validUserinfo userinfo then Inl (ErrorString ''net/url: invalid userinfo'')
               else
                 (case Cut userinfo '':'' of
                    None \<Rightarrow>
                      (case unescape userinfo encodeUserPassword of
                         Inl err \<Rightarrow> Inl err
                       | Inr u \<Rightarrow>
                           Inr (Some \<lparr>username = u, password = [], passwordSet = False\<rparr>, host))
                  | Some (name, pass) \<Rightarrow>
                      (case unescape name encodeUserPassword of
                         Inl err \<Rightarrow> Inl err
                       | Inr u \<Rightarrow>
                           (case unescape pass encodeUserPassword of
                              Inl err \<Rightarrow> Inl err
                            | Inr p \<Rightarrow>
                                Inr (Some \<lparr>username = u, password = p, passwordSet = True\<rparr>,
                                     host))))))"

definition setPath :: "url_URL \<Rightarrow> string \<Rightarrow> error + url_URL" where
  "setPath u p =
     (case unescape p encodePath of
        Inl err \<Rightarrow> Inl err
      | Inr path \<Rightarrow>
          Inr (u\<lparr>Path := path,
                 RawPath := (if p = escape path encodePath then [] else p)\<rparr>))"

definition setFragment :: "url_URL \<Rightarrow> string \<Rightarrow> error + url_URL" where
  "setFragment u f =
     (case unescape f encodeFragment of
        Inl err \<Rightarrow> Inl err
      | Inr frag \<Rightarrow>
          Inr (u\<lparr>Fragment := frag,
                 RawFragment := (if f = escape frag encodeFragment then [] else f)\<rparr>))"

text \<open>
  \<open>parse rawURL viaRequest\<close> is the library's unexported \<open>parse\<close>; \<open>url.Parse\<close>
  calls it with \<open>viaRequest = false\<close> on the text before the first \<open>#\<close>.
\<close>

definition parse_rest :: "url_URL \<Rightarrow> string \<Rightarrow> bool \<Rightarrow> error + url_URL" where
  "parse_rest u rest viaRequest =
     (if (Scheme u \<noteq> [] \<or> \<not> viaRequest \<and> \<not> HasPrefix rest ''///'') \<and> HasPrefix rest ''//''
      then
        (let authority = (case Cut (drop 2 rest) ''/'' of
                            None \<Rightarrow> drop 2 rest | Some (front, back) \<Rightarrow> front);
             rest' = drop (length authority) (drop 2 rest) in
         case parseAuthority authority of
           Inl err \<Rightarrow> Inl err
         | Inr (user, host) \<Rightarrow> setPath (u\<lparr>User := user, Host := host\<rparr>) rest')
      else if Scheme u \<noteq> [] \<and> HasPrefix rest ''/'' then setPath (u\<lparr>OmitHost := True\<rparr>) rest
      else setPath u rest)"

definition parse :: "string \<Rightarrow> bool \<Rightarrow> error + url_URL" where
  "parse rawURL viaRequest =
     (if stringContainsCTLByte rawURL
      then Inl (ErrorString ''net/url: invalid control character in URL'')
      else if rawURL = [] \<and> viaRequest then Inl (ErrorString ''empty url'')
      else if rawURL = ''*'' then Inr (new_URL\<lparr>Path := ''*''\<rparr>)
      else
        (case getScheme rawURL of
           Inl err \<Rightarrow> Inl err
         | Inr (scheme, rest0) \<Rightarrow>
             let u0 = new_URL\<lparr>Scheme := ToLower scheme\<rparr>;
                 force = (HasSuffix rest0 ''?'' \<and> count_list rest0 CHR ''?'' = 1);
                 rest = (if force then butlast rest0
                         else (case Cut rest0 ''?'' of
                                 None \<Rightarrow> rest0 | Some (front, back) \<Rightarrow> front));
                 query = (if force then []
                          else (case Cut rest0 ''?'' of
                                  None \<Rightarrow> [] | Some (front, back) \<Rightarrow> back));
                 u = u0\<lparr>ForceQuery := force, RawQuery := query\<rparr>
             in
               if \<not> HasPrefix rest ''/'' then
                 (if Scheme u \<noteq> [] then Inr (u\<lparr>Opaque := rest\<rparr>)
                  else if viaRequest then Inl (ErrorString ''invalid URI for request'')
                  else if Contains (case Cut rest ''/'' of
                                      None \<Rightarrow> rest | Some (segment, back) \<Rightarrow> segment) '':''
                    then Inl (ErrorString ''first path segment in URL cannot contain colon'')
                  else parse_rest u rest viaRequest)
               else parse_rest u rest viaRequest))"

definition url_Parse :: "string \<Rightarrow> error + url_URL" where
  "url_Parse rawURL =
     (let u = (case Cut rawURL ''#'' of None \<Rightarrow> rawURL | Some (front, back) \<Rightarrow> front);
          frag = (case Cut rawURL ''#'' of None \<Rightarrow> [] | Some (front, back) \<Rightarrow> back)
      in case parse u False of
           Inl err \<Rightarrow> Inl (URLError ''parse'' u err)
         | Inr url \<Rightarrow>
             if frag = [] then Inr url
             else (case setFragment url frag of
                     Inl err \<Rightarrow> Inl (URLError ''parse'' rawURL err)
                   | Inr url' \<Rightarrow> Inr url'))"

definition EscapedPath :: "url_URL \<Rightarrow> string" where
  "EscapedPath u =
     (if RawPath u \<noteq> [] \<and> validEncoded (RawPath u) encodePath \<and>
         unescape (RawPath u) encodePath = Inr (Path u)
      then RawPath u
      else if Path u = ''*'' then ''*''
      else escape (Path u) encodePath)"

definition EscapedFragment :: "url_URL \<Rightarrow> string" where
  "EscapedFragment u =
     (if RawFragment u \<noteq> [] \<and> validEncoded (RawFragment u) encodeFragment \<and>
         unescape (RawFragment u) encodeFragment = Inr (Fragment u)
      then RawFragment u
      else escape (Fragment u) encodeFragment)"

definition Userinfo_String :: "Userinfo \<Rightarrow> string" where
  "Userinfo_String ui =
     escape (username ui) encodeUserPassword @
     (if passwordSet ui then '':'' @ escape (password ui) encodeUserPassword else [])"

text \<open>
  \<open>URL.String\<close> writes into a buffer; each definition below is the text one stage of
  the method appends, \<open>buf\<close> being what the buffer already holds where the source
  asks for \<open>buf.Len() == 0\<close>.
\<close>

definition String_authority :: "url_URL \<Rightarrow> string" where
  "String_authority u =
     (if Scheme u \<noteq> [] \<or> Host u \<noteq> [] \<or> User u \<noteq> None then
        (if OmitHost u \<and> Host u = [] \<and> User u = None then []
         else
           (if Host u \<noteq> [] \<or> Path u \<noteq> [] \<or> User u \<noteq> None then ''//'' else []) @
           (case User u of None \<Rightarrow> [] | Some ui \<Rightarrow> Userinfo_String ui @ ''@'') @
           (if Host u \<noteq> [] then escape (Host u) encodeHost else []))
      else [])"

definition String_path :: "url_URL \<Rightarrow> string \<Rightarrow> string" where
  "String_path u buf =
     (let path = EscapedPath u in
        (if path \<noteq> [] \<and> hd path \<noteq> CHR ''/'' \<and> Host u \<noteq> [] then ''/'' else []) @
        (if buf = [] \<and> \<not> (path \<noteq> [] \<and> hd path \<noteq> CHR ''/'' \<and> Host u \<noteq> []) \<and>
            Contains (case Cut path ''/'' of None \<Rightarrow> path | Some (segment, back) \<Rightarrow> segment) '':''
         then ''./'' else []) @
        path)"

definition URL_String :: "url_URL \<Rightarrow> string" where
  "URL_String u =
     (let buf1 = (if Scheme u \<noteq> [] then Scheme u @ '':'' else []);
          buf2 = (if Opaque u \<noteq> [] then buf1 @ Opaque u
                  else (let buf = buf1 @ String_authority u in buf @ String_path u buf))
      in buf2 @
         (if ForceQuery u \<or> RawQuery u \<noteq> [] then ''?'' @ RawQuery u else []) @
         (if Fragment u \<noteq> [] then ''#'' @ EscapedFragment u else []))"

subsection \<open>Package bufio: the line scanner\<close>

text \<open>
  \<open>bufio.NewScanner(r)\<close> splits its input with \<open>ScanLines\<close>: each token is one
  line without its end-of-line marker (a newline, with one carriage return before it
  dropped); a last line without newline is a token when it is not empty. The scanner
  keeps a token in a buffer of at most 65536 bytes (\<open>MaxScanTokenSize\<close>): when a
  line does not fit, \<open>Scan\<close> returns false and the scan ends there.
  \<open>Scanner_tokens data\<close> is the list of the texts that the successive \<open>Scan\<close> and
  \<open>Text\<close> calls of the loop in \<open>multiDownload\<close> yield on the input \<open>data\<close>.
\<close>

definition MaxScanTokenSize :: nat where
  "MaxScanTokenSize = 65536"

definition dropCR :: "string \<Rightarrow> string" where
  "dropCR line = (if line \<noteq> [] \<and> last line = CHR 0x0D then butlast line else line)"

function Scanner_tokens :: "string \<Rightarrow> string list" where
  "Scanner_tokens data =
     (if data = [] then []
      else
        (let line = takeWhile (\<lambda>c. c \<noteq> CHR 0x0A) data;
             rest = dropWhile (\<lambda>c. c \<noteq> CHR 0x0A) data
         in if rest = [] then (if length line < MaxScanTokenSize then [dropCR line] else [])
            else if length line < MaxScanTokenSize then dropCR line # Scanner_tokens (tl rest)
            else []))"
  by pat_completeness auto
termination
proof (relation "measure length")
  show "wf (measure length)"
    by simp
next
  fix data :: string and line rest :: string
  assume "data \<noteq> []" and r: "rest = dropWhile (\<lambda>c. c \<noteq> CHR 0x0A) data" and "rest \<noteq> []"
  have "length (dropWhile (\<lambda>c. c \<noteq> CHR 0x0A) data) \<le> length data"
    by (rule length_dropWhile_le)
  moreover from \<open>rest \<noteq> []\<close> have "length (tl rest) < length rest"
    by (cases rest) simp_all
  ultimately have "length (tl rest) < length data"
    using r by simp
  then show "(tl rest, data) \<in> measure length"
    by simp
qed

subsection \<open>The program's data\<close>

text \<open>
  \<open>GotHeader\<close> and \<open>Download\<close> are the engine's request types, with the fields
  that \<open>download\<close> fills in. \<open>cli_Context\<close> holds the values the flag accessors
  \<open>c.String\<close>, \<open>c.Uint64\<close>, \<open>c.Uint\<close>, \<open>c.StringSlice\<close> and \<open>c.Args().Slice()\<close>
  return; \<open>c.StringSlice("header")\<close> is \<open>nil\<close> (here \<open>None\<close>) when the flag was
  never given.
\<close>

record GotHeader =
  Key :: string
  Value :: string

record Download =
  URL :: string
  Dir :: string
  Dest :: string
  Header :: "GotHeader list"
  Interval :: "64 word"
  ChunkSize :: "64 word"
  Concurrency :: "64 word"

record cli_Context =
  flag_output :: string
  flag_dir :: string
  flag_file :: string
  flag_size :: "64 word"
  flag_concurrency :: "64 word"
  flag_header :: "string list option"
  flag_agent :: string
  flag_args :: "string list"

text \<open>
  The operating system and the engine, as far as \<open>run\<close> consults them.
  \<open>Stdin_Stat\<close> is the result of \<open>os.Stdin.Stat()\<close>, \<open>Stat path\<close> the error of
  \<open>os.Stat(path)\<close>, \<open>MkdirAll path\<close> the error of \<open>os.MkdirAll(path, os.ModePerm)\<close>,
  \<open>Open path\<close> the result of \<open>os.Open(path)\<close> (the bytes of the file),
  \<open>Stdin_data\<close> the bytes on standard input.

  The download engine (\<open>got.Got\<close>, the repository's root package) is not among the
  sources: \<open>Do\<close> is a parameter. Its result for a request may depend on every
  request submitted before, so it takes that history as well: \<open>Do history request\<close>
  is \<open>None\<close> for Go's \<open>nil\<close> and \<open>Some err\<close> for a failure.
\<close>

record FileInfo =
  Mode :: "32 word"
  Size :: "64 word"

record env =
  Stdin_Stat :: "error + FileInfo"
  Stdin_data :: string
  Stat :: "string \<Rightarrow> error option"
  MkdirAll :: "string \<Rightarrow> error option"
  Open :: "string \<Rightarrow> error + string"
  DefaultUserAgent :: string
  Do :: "Download list \<Rightarrow> Download \<Rightarrow> error option"

text \<open>
  The state \<open>run\<close> changes: the global variables \<open>HeaderSlice\<close> and
  \<open>got.UserAgent\<close>, and the trace of what the run did to the outside: the requests
  passed to \<open>g.Do\<close> in order, the bytes printed, the directories it asked
  \<open>os.MkdirAll\<close> to create.
\<close>

record state =
  HeaderSlice :: "GotHeader list"
  UserAgent :: string
  submitted :: "Download list"
  stdout :: string
  mkdirs :: "string list"

definition init_state :: "env \<Rightarrow> state" where
  "init_state e = \<lparr>HeaderSlice = [], UserAgent = DefaultUserAgent e, submitted = [],
     stdout = [], mkdirs = []\<rparr>"

type_synonym result = "error option \<times> state"

subsection \<open>getURL and download\<close>

definition getURL :: "string \<Rightarrow> error + string" where
  "getURL url =
     (case url_Parse url of
        Inl err \<Rightarrow> Inl err
      | Inr u \<Rightarrow> Inr (URL_String (if Scheme u = [] then u\<lparr>Scheme := ''https''\<rparr> else u)))"

text \<open>The struct literal of lines 197 to 205, built from the flags and the global header list.\<close>

definition request :: "cli_Context \<Rightarrow> GotHeader list \<Rightarrow> string \<Rightarrow> Download" where
  "request c headers url =
     \<lparr>URL = url, Dir = flag_dir c, Dest = flag_output c, Header = headers, Interval = 150,
      ChunkSize = flag_size c, Concurrency = flag_concurrency c\<rparr>"

definition download :: "env \<Rightarrow> cli_Context \<Rightarrow> state \<Rightarrow> string \<Rightarrow> result" where
  "download e c s url =
     (case getURL url of
        Inl err \<Rightarrow> (Some err, s)
      | Inr url' \<Rightarrow>
          (Do e (submitted s) (request c (HeaderSlice s) url'),
           s\<lparr>submitted := submitted s @ [request c (HeaderSlice s) url']\<rparr>))"

text \<open>
  After a successful download the loops print the escape sequence that clears the
  line, then a check mark (U+2714, three bytes in UTF-8), a space, the URL as the
  loop holds it and a newline.
\<close>

definition print_done :: "state \<Rightarrow> string \<Rightarrow> state" where
  "print_done s url =
     s\<lparr>stdout := stdout s @ [CHR 0x1B] @ ''[2K'' @ [CHR 0xE2, CHR 0x9C, CHR 0x94] @ '' '' @ url
                  @ [CHR 0x0A]\<rparr>"

subsection \<open>multiDownload\<close>

text \<open>
  The loop \<open>for scanner.Scan()\<close>, by recursion on the tokens the scanner yields.
  The error of the scanner itself is never read (\<open>scanner.Err()\<close> is not called).
\<close>

fun multiDownload :: "env \<Rightarrow> cli_Context \<Rightarrow> string list \<Rightarrow> state \<Rightarrow> result" where
  "multiDownload e c [] s = (None, s)"
| "multiDownload e c (line # lines) s =
     (let url = TrimSpace line in
        if url = [] then multiDownload e c lines s
        else
          (case download e c s url of
             (Some err, s') \<Rightarrow> (Some err, s')
           | (None, s') \<Rightarrow> multiDownload e c lines (print_done s' url)))"

subsection \<open>run\<close>

text \<open>
  \<open>run\<close> is a sequence of stages, each of which may return an error and end the
  run. \<open>and_then r f\<close> continues with \<open>f\<close> when the stage before it returned no error.
\<close>

definition and_then :: "result \<Rightarrow> (state \<Rightarrow> result) \<Rightarrow> result" where
  "and_then r f = (case r of (Some err, s) \<Rightarrow> (Some err, s) | (None, s) \<Rightarrow> f s)"

text \<open>Lines 114 to 119: create the directory if it does not exist.\<close>

definition create_dir :: "env \<Rightarrow> cli_Context \<Rightarrow> state \<Rightarrow> result" where
  "create_dir e c s =
     (if flag_dir c \<noteq> [] then
        (if IsNotExist (Stat e (flag_dir c))
         then (let discarded = MkdirAll e (flag_dir c)
               in (None, s\<lparr>mkdirs := mkdirs s @ [flag_dir c]\<rparr>))
         else (None, s))
      else (None, s))"

text \<open>Lines 121 to 124: the user agent.\<close>

definition set_agent :: "cli_Context \<Rightarrow> state \<Rightarrow> result" where
  "set_agent c s = (if flag_agent c \<noteq> [] then (None, s\<lparr>UserAgent := flag_agent c\<rparr>) else (None, s))"

text \<open>
  Lines 126 to 131: piped standard input. \<open>os.ModeNamedPipe\<close> is bit 25 of the file
  mode; \<open>info.Size()\<close> is a signed 64-bit number.
\<close>

definition ModeNamedPipe :: "32 word" where
  "ModeNamedPipe = push_bit 25 1"

definition piped :: "FileInfo \<Rightarrow> bool" where
  "piped info \<longleftrightarrow> (Mode info AND ModeNamedPipe) > 0 \<or> sint (Size info) > 0"

definition stdin_stage :: "env \<Rightarrow> cli_Context \<Rightarrow> FileInfo \<Rightarrow> state \<Rightarrow> result" where
  "stdin_stage e c info s =
     (if piped info then multiDownload e c (Scanner_tokens (Stdin_data e)) s else (None, s))"

text \<open>Lines 133 to 144: the batch file.\<close>

definition file_stage :: "env \<Rightarrow> cli_Context \<Rightarrow> state \<Rightarrow> result" where
  "file_stage e c s =
     (if flag_file c \<noteq> [] then
        (case Open e (flag_file c) of
           Inl err \<Rightarrow> (Some err, s)
         | Inr file \<Rightarrow> multiDownload e c (Scanner_tokens file) s)
      else (None, s))"

text \<open>
  Lines 146 to 156: the header flags, appended to the global \<open>HeaderSlice\<close> one by
  one. \<open>split[0]\<close> and \<open>split[1]\<close> would panic on a slice that is too short.
\<close>

fun header_loop :: "string list \<Rightarrow> state \<Rightarrow> result" where
  "header_loop [] s = (None, s)"
| "header_loop (h # hs) s =
     (let split = SplitN h '':'' 2 in
        if length split = 1 then (Some (ErrorString (''malformatted header '' @ h)), s)
        else if length split < 2 then (Some RuntimePanic, s)
        else header_loop hs
               (s\<lparr>HeaderSlice := HeaderSlice s @
                     [\<lparr>Key = split ! 0, Value = TrimSpace (split ! 1)\<rparr>]\<rparr>))"

definition header_stage :: "cli_Context \<Rightarrow> state \<Rightarrow> result" where
  "header_stage c s =
     (case flag_header c of
        None \<Rightarrow> (None, s)
      | Some header \<Rightarrow> header_loop header s)"

text \<open>Lines 158 to 167: the positional arguments.\<close>

fun args_loop :: "env \<Rightarrow> cli_Context \<Rightarrow> string list \<Rightarrow> state \<Rightarrow> result" where
  "args_loop e c [] s = (None, s)"
| "args_loop e c (url # urls) s =
     (case download e c s url of
        (Some err, s') \<Rightarrow> (Some err, s')
      | (None, s') \<Rightarrow> args_loop e c urls (print_done s' url))"

definition run :: "env \<Rightarrow> cli_Context \<Rightarrow> result" where
  "run e c =
     (case Stdin_Stat e of
        Inl err \<Rightarrow> (Some err, init_state e)
      | Inr info \<Rightarrow>
          and_then (and_then (and_then (and_then (and_then
            (create_dir e c (init_state e))
            (set_agent c))
            (stdin_stage e c info))
            (file_stage e c))
            (header_stage c))
            (args_loop e c (flag_args c)))"

declare trim_leading.simps [simp del]

declare Scanner_tokens.simps [simp del]

subsection \<open>The progress callback\<close>

text \<open>
  Lines 103 to 107: \<open>run\<close> installs a callback that the engine calls during a
  transfer. The progress bar is the one of the library \<open>schollz/progressbar\<close>,
  which is not part of the repository: \<open>ChangeMax\<close> sets the maximum and \<open>Add\<close>
  adds an amount to the current position, as the library documents them. The bar
  counts in signed 64-bit integers, and the conversion \<open>int(...)\<close> of the engine's
  unsigned 64-bit counters keeps the bits. \<open>Progress\<close> holds what the accessors
  \<open>d.TotalSize()\<close> and \<open>d.Size()\<close> of the download return when the callback fires:
  the total size and the bytes transferred so far.
\<close>

record ProgressBar =
  bar_max :: "64 word"
  currentNum :: "64 word"

definition progressbar_New :: "64 word \<Rightarrow> ProgressBar" where
  "progressbar_New m = \<lparr>bar_max = m, currentNum = 0\<rparr>"

definition ChangeMax :: "ProgressBar \<Rightarrow> 64 word \<Rightarrow> ProgressBar" where
  "ChangeMax p newMax = p\<lparr>bar_max := newMax\<rparr>"

definition Add :: "ProgressBar \<Rightarrow> 64 word \<Rightarrow> ProgressBar" where
  "Add p num = p\<lparr>currentNum := currentNum p + num\<rparr>"

record Progress =
  TotalSize :: "64 word"
  Size :: "64 word"

definition ProgressFunc :: "ProgressBar \<Rightarrow> Progress \<Rightarrow> ProgressBar" where
  "ProgressFunc p d = Add (ChangeMax p (TotalSize d)) (Size d)"


subsection \<open>Traces of a run\<close>

text \<open>
  What the properties below say about a run is read off the trace \<open>submitted\<close>.
  \<open>answers e ds\<close> lists the engine's result for each request of the trace
  \<open>ds\<close>, request \<open>k\<close> having been submitted after the first \<open>k\<close> ones.
  A state is \<open>clean\<close> when the engine accepted every request so far, and a
  result is \<open>fail_fast\<close> when at most the last request failed and the error
  returned is then the engine's.
\<close>

definition answers :: "env \<Rightarrow> Download list \<Rightarrow> error option list" where
  "answers e ds = map (\<lambda>k. Do e (take k ds) (ds ! k)) [0..<length ds]"

definition clean :: "env \<Rightarrow> state \<Rightarrow> bool" where
  "clean e s \<longleftrightarrow> list_all (\<lambda>a. a = None) (answers e (submitted s))"

definition fail_fast :: "env \<Rightarrow> result \<Rightarrow> bool" where
  "fail_fast e rs \<longleftrightarrow>
     clean e (snd rs) \<or>
     (\<exists>ds d err. submitted (snd rs) = ds @ [d] \<and> list_all (\<lambda>a. a = None) (answers e ds) \<and>
        Do e ds d = Some err \<and> fst rs = Some err)"


text \<open>
  \<open>candidates_of data\<close> lists what the loop of \<open>multiDownload\<close> takes from a
  line-based source: the lines the scanner yields, trimmed, without the empty ones.
  \<open>extends s urls rs\<close> says
  that a stage started in state \<open>s\<close> with result \<open>rs\<close> submitted, after what
  \<open>s\<close> already holds, the normalised forms of the first \<open>n\<close> of \<open>urls\<close> in
  their order, and all of them when it returned no error.
  \<open>stdin_candidates\<close> and \<open>file_candidates\<close> are the candidates the two
  line-based sources hold in a given environment.
\<close>

definition candidates_of :: "string \<Rightarrow> string list" where
  "candidates_of data = filter (\<lambda>u. u \<noteq> []) (map TrimSpace (Scanner_tokens data))"

text \<open>
  The spec's reading of a line-based source, for comparison with the scanner:
  \<open>spec_lines data\<close> are the pieces of \<open>data\<close> between its newlines, whatever
  their length (a last piece without newline is a line when it is not empty), and
  \<open>spec_candidates data\<close> are these lines, trimmed, without the empty ones.
\<close>

fun spec_lines_from :: "string \<Rightarrow> string \<Rightarrow> string list" where
  "spec_lines_from line [] = (if line = [] then [] else [line])"
| "spec_lines_from line (c # cs) =
     (if c = CHR 0x0A then line # spec_lines_from [] cs else spec_lines_from (line @ [c]) cs)"

definition spec_lines :: "string \<Rightarrow> string list" where
  "spec_lines data = spec_lines_from [] data"

definition spec_candidates :: "string \<Rightarrow> string list" where
  "spec_candidates data = filter (\<lambda>u. u \<noteq> []) (map TrimSpace (spec_lines data))"

definition extends :: "state \<Rightarrow> string list \<Rightarrow> result \<Rightarrow> bool" where
  "extends s urls rs \<longleftrightarrow>
     (\<exists>n ds. n \<le> length urls \<and> submitted (snd rs) = submitted s @ ds \<and>
        map (\<lambda>d. Inr (URL d)) ds = map getURL (take n urls) \<and>
        (fst rs = None \<longrightarrow> n = length urls))"


definition stdin_candidates :: "env \<Rightarrow> string list" where
  "stdin_candidates e =
     (case Stdin_Stat e of
        Inl err \<Rightarrow> []
      | Inr info \<Rightarrow> if piped info then candidates_of (Stdin_data e) else [])"

definition file_candidates :: "env \<Rightarrow> cli_Context \<Rightarrow> string list" where
  "file_candidates e c =
     (if flag_file c \<noteq> [] then
        (case Open e (flag_file c) of Inl err \<Rightarrow> [] | Inr file \<Rightarrow> candidates_of file)
      else [])"


text \<open>
  \<open>piped_stages\<close> names the part of \<open>run\<close> before the header flags are parsed
  (lines 109 to 144); a state is \<open>headless\<close> when the global header list is still
  empty and no request submitted so far carries a header.
\<close>

definition piped_stages :: "env \<Rightarrow> cli_Context \<Rightarrow> FileInfo \<Rightarrow> result" where
  "piped_stages e c info =
     and_then (and_then (and_then
       (create_dir e c (init_state e))
       (set_agent c))
       (stdin_stage e c info))
       (file_stage e c)"


definition headless :: "state \<Rightarrow> bool" where
  "headless s \<longleftrightarrow> HeaderSlice s = [] \<and> list_all (\<lambda>d. Header d = []) (submitted s)"


text \<open>
  A scheme, as \<open>getScheme\<close> accepts one: a letter followed by letters, digits and
  the characters \<open>+ - .\<close>
\<close>

definition schemeChar :: "char \<Rightarrow> bool" where
  "schemeChar c \<longleftrightarrow> isLetter c \<or> isDigit c \<or> c = CHR ''+'' \<or> c = CHR ''-'' \<or> c = CHR ''.''"

definition validScheme :: "string \<Rightarrow> bool" where
  "validScheme sch \<longleftrightarrow> sch \<noteq> [] \<and> isLetter (hd sch) \<and> list_all schemeChar sch"


subsection \<open>Example inputs\<close>

text \<open>
  Concrete surroundings for the examples: standard input is a pipe holding
  \<open>stdin\<close> (or a terminal when it is empty), the only file is \<open>urls.txt\<close>
  with the bytes \<open>file\<close>, no directory exists and none can be created.
\<close>

definition example_env :: "string \<Rightarrow> string \<Rightarrow> (Download list \<Rightarrow> Download \<Rightarrow> error option) \<Rightarrow> env" where
  "example_env stdin file engine =
     \<lparr>Stdin_Stat = Inr \<lparr>Mode = (if stdin = [] then 0 else ModeNamedPipe), Size = 0\<rparr>,
      Stdin_data = stdin,
      Stat = (\<lambda>p. Some (PathError ''stat'' p ENOENT)),
      MkdirAll = (\<lambda>p. Some (PathError ''mkdir'' p EACCES)),
      Open = (\<lambda>p. if p = ''urls.txt'' then Inr file else Inl (PathError ''open'' p ENOENT)),
      DefaultUserAgent = ''got'',
      Do = engine\<rparr>"

definition example_cli :: "string \<Rightarrow> string \<Rightarrow> string list option \<Rightarrow> string list \<Rightarrow> cli_Context" where
  "example_cli dir file header args =
     \<lparr>flag_output = [], flag_dir = dir, flag_file = file, flag_size = 0, flag_concurrency = 0,
      flag_header = header, flag_agent = [], flag_args = args\<rparr>"

text \<open>
  Two line-based inputs. \<open>padded_input\<close> holds a line \<open>a\<close> with a space on
  either side, a line of a space and a tab, an empty line and a line \<open>b\<close> that ends
  with a carriage return. \<open>long_input\<close> holds a line \<open>a\<close>, a line of 65536
  letters and a line \<open>b\<close>.
\<close>

definition padded_input :: string where
  "padded_input =
     '' a '' @ [CHR 0x0A] @ [CHR 0x20, CHR 0x09] @ [CHR 0x0A] @ [CHR 0x0A] @ ''b'' @ [CHR 0x0D, CHR 0x0A]"

definition long_line :: string where
  "long_line = replicate MaxScanTokenSize (CHR ''x'')"

definition long_input :: string where
  "long_input = ''a'' @ [CHR 0x0A] @ long_line @ [CHR 0x0A] @ ''b'' @ [CHR 0x0A]"

definition always_ok :: "Download list \<Rightarrow> Download \<Rightarrow> error option" where
  "always_ok history d = None"

definition fails_on :: "string \<Rightarrow> Download list \<Rightarrow> Download \<Rightarrow> error option" where
  "fails_on url history d = (if URL d = url then Some (ErrorString ''boom'') else None)"


section \<open>Properties\<close>

subsection \<open>Library facts\<close>

lemma HasPrefix_single: "HasPrefix (x # xs) [c] \<longleftrightarrow> x = c"
  by (simp add: HasPrefix_def)

lemma Cut_byte:
  "Cut s [c] = (if c \<in> set s
                then Some (takeWhile (\<lambda>x. x \<noteq> c) s, tl (dropWhile (\<lambda>x. x \<noteq> c) s))
                else None)"
  by (induction s) (auto simp: HasPrefix_single)

lemma SplitN_byte_2:
  "SplitN h [c] 2 = (if c \<in> set h
                     then [takeWhile (\<lambda>x. x \<noteq> c) h, tl (dropWhile (\<lambda>x. x \<noteq> c) h)]
                     else [h])"
  by (simp add: numeral_2_eq_2 Cut_byte)

lemma length_SplitN_2: "length (SplitN h sep 2) = 1 \<or> length (SplitN h sep 2) = 2"
  by (simp add: numeral_2_eq_2 split: option.splits)

lemma header_loop_no_panic: "fst (header_loop hs s) \<noteq> Some RuntimePanic"
proof (induction hs arbitrary: s)
  case Nil
  show ?case by simp
next
  case (Cons h hs)
  from length_SplitN_2 [of h "'':''"] show ?case
    using Cons.IH by (auto simp: Let_def)
qed

lemma Scanner_tokens_Nil: "Scanner_tokens [] = []"
  by (simp add: Scanner_tokens.simps)

lemma takeWhile_no_newline:
  "CHR 0x0A \<notin> set line \<Longrightarrow> takeWhile (\<lambda>c. c \<noteq> CHR 0x0A) (line @ rest) = line @ takeWhile (\<lambda>c. c \<noteq> CHR 0x0A) rest"
  by (induction line) auto

lemma dropWhile_no_newline:
  "CHR 0x0A \<notin> set line \<Longrightarrow> dropWhile (\<lambda>c. c \<noteq> CHR 0x0A) (line @ rest) = dropWhile (\<lambda>c. c \<noteq> CHR 0x0A) rest"
  by (induction line) auto

lemma Scanner_tokens_line:
  assumes "CHR 0x0A \<notin> set line" and "length line < MaxScanTokenSize"
  shows "Scanner_tokens (line @ CHR 0x0A # rest) = dropCR line # Scanner_tokens rest"
  by (subst Scanner_tokens.simps)
     (simp add: Let_def takeWhile_no_newline dropWhile_no_newline assms)

lemma takeWhile_whole_line:
  "CHR 0x0A \<notin> set line \<Longrightarrow> takeWhile (\<lambda>c. c \<noteq> CHR 0x0A) line = line"
  by (induction line) auto

lemma dropWhile_whole_line:
  "CHR 0x0A \<notin> set line \<Longrightarrow> dropWhile (\<lambda>c. c \<noteq> CHR 0x0A) line = []"
  by (induction line) auto

lemma Scanner_tokens_last:
  assumes "CHR 0x0A \<notin> set line" and "length line < MaxScanTokenSize" and "line \<noteq> []"
  shows "Scanner_tokens line = [dropCR line]"
  by (subst Scanner_tokens.simps)
     (simp add: Let_def takeWhile_whole_line dropWhile_whole_line assms)

lemma Scanner_tokens_too_long:
  assumes "CHR 0x0A \<notin> set line" and "\<not> length line < MaxScanTokenSize"
  shows "Scanner_tokens (line @ CHR 0x0A # rest) = []"
  by (subst Scanner_tokens.simps)
     (simp add: Let_def takeWhile_no_newline dropWhile_no_newline assms)

lemma spec_lines_from_line:
  "CHR 0x0A \<notin> set line \<Longrightarrow>
     spec_lines_from acc (line @ CHR 0x0A # rest) = (acc @ line) # spec_lines_from [] rest"
  by (induction line arbitrary: acc) auto

lemma spec_lines_line:
  "CHR 0x0A \<notin> set line \<Longrightarrow> spec_lines (line @ CHR 0x0A # rest) = line # spec_lines rest"
  by (simp add: spec_lines_def spec_lines_from_line)

lemma spec_lines_last:
  "CHR 0x0A \<notin> set line \<Longrightarrow>
     spec_lines_from acc line = (if acc @ line = [] then [] else [acc @ line])"
  by (induction line arbitrary: acc) auto

lemma newline_not_in_takeWhile: "CHR 0x0A \<notin> set (takeWhile (\<lambda>c. c \<noteq> CHR 0x0A) data)"
  by (induction data) auto

lemma dropWhile_starts_newline:
  "dropWhile (\<lambda>c. c \<noteq> CHR 0x0A) data \<noteq> [] \<Longrightarrow>
     dropWhile (\<lambda>c. c \<noteq> CHR 0x0A) data = CHR 0x0A # tl (dropWhile (\<lambda>c. c \<noteq> CHR 0x0A) data)"
  by (induction data) auto

lemma spec_lines_unfold:
  "spec_lines data =
     (if data = [] then []
      else if dropWhile (\<lambda>c. c \<noteq> CHR 0x0A) data = [] then [takeWhile (\<lambda>c. c \<noteq> CHR 0x0A) data]
      else takeWhile (\<lambda>c. c \<noteq> CHR 0x0A) data #
             spec_lines (tl (dropWhile (\<lambda>c. c \<noteq> CHR 0x0A) data)))"
proof (cases "dropWhile (\<lambda>c. c \<noteq> CHR 0x0A) data = []")
  case True
  then have "CHR 0x0A \<notin> set data"
    by (induction data) (auto split: if_splits)
  with True show ?thesis
    by (simp add: spec_lines_def spec_lines_last takeWhile_whole_line)
next
  case False
  let ?line = "takeWhile (\<lambda>c. c \<noteq> CHR 0x0A) data"
  let ?rest = "dropWhile (\<lambda>c. c \<noteq> CHR 0x0A) data"
  from False have "?rest = CHR 0x0A # tl ?rest"
    by (rule dropWhile_starts_newline)
  moreover have "data = ?line @ ?rest"
    by simp
  ultimately have "data = ?line @ CHR 0x0A # tl ?rest"
    by simp
  then have "spec_lines data = spec_lines (?line @ CHR 0x0A # tl ?rest)"
    by simp
  also have "\<dots> = ?line # spec_lines (tl ?rest)"
    by (rule spec_lines_line) (rule newline_not_in_takeWhile)
  finally show ?thesis
    using False by auto
qed

text \<open>
  On an input whose lines are all shorter than the scanner's buffer, the scanner
  yields the lines of the input, one by one and each without its carriage return.
\<close>

lemma Scanner_tokens_spec_lines:
  "list_all (\<lambda>l. length l < MaxScanTokenSize) (spec_lines data) \<Longrightarrow>
     Scanner_tokens data = map dropCR (spec_lines data)"
proof (induction data rule: Scanner_tokens.induct)
  case (1 data)
  let ?line = "takeWhile (\<lambda>c. c \<noteq> CHR 0x0A) data"
  let ?rest = "dropWhile (\<lambda>c. c \<noteq> CHR 0x0A) data"
  show ?case
  proof (cases "data = []")
    case True
    then show ?thesis
      by (simp add: Scanner_tokens_Nil spec_lines_def)
  next
    case ne: False
    show ?thesis
    proof (cases "?rest = []")
      case True
      with ne "1.prems" have "length ?line < MaxScanTokenSize" and sl: "spec_lines data = [?line]"
        by (simp_all add: spec_lines_unfold [of data])
      with ne True show ?thesis
        by (subst Scanner_tokens.simps) (simp add: Let_def)
    next
      case False
      have sl: "spec_lines data = ?line # spec_lines (tl ?rest)"
        by (subst spec_lines_unfold) (simp only: ne False if_False)
      with "1.prems" have short: "length ?line < MaxScanTokenSize"
        and rest: "list_all (\<lambda>l. length l < MaxScanTokenSize) (spec_lines (tl ?rest))"
        by simp_all
      from ne False short rest have "Scanner_tokens (tl ?rest) = map dropCR (spec_lines (tl ?rest))"
        by (intro "1.IH" [OF ne refl refl False short])
      with ne False short sl show ?thesis
        by (subst Scanner_tokens.simps) (auto simp add: Let_def)
    qed
  qed
qed


subsection \<open>Fail-fast dispatch\<close>

lemma answers_snoc: "answers e (ds @ [d]) = answers e ds @ [Do e ds d]"
  by (simp add: answers_def nth_append)

lemma length_answers: "length (answers e ds) = length ds"
  by (simp add: answers_def)

lemma answers_nth: "k < length ds \<Longrightarrow> answers e ds ! k = Do e (take k ds) (ds ! k)"
  by (simp add: answers_def)

lemma clean_fail_fast: "clean e s \<Longrightarrow> fail_fast e (r, s)"
  by (simp add: fail_fast_def)

lemma fail_fast_None: "fail_fast e (None, s) \<Longrightarrow> clean e s"
  by (auto simp: fail_fast_def)

lemma submitted_print_done: "submitted (print_done s url) = submitted s"
  by (simp add: print_done_def)

lemma clean_print_done: "clean e (print_done s url) = clean e s"
  by (simp add: clean_def submitted_print_done)

lemma fail_fast_download:
  assumes "clean e s"
  shows "fail_fast e (download e c s url)"
proof (cases "getURL url")
  case (Inl err)
  with assms show ?thesis
    by (simp add: download_def clean_fail_fast)
next
  case (Inr u)
  show ?thesis
  proof (cases "Do e (submitted s) (request c (HeaderSlice s) u)")
    case None
    with assms Inr have "clean e (snd (download e c s url))"
      by (simp add: download_def clean_def answers_snoc)
    then show ?thesis
      by (simp add: fail_fast_def)
  next
    case (Some err)
    with assms Inr show ?thesis
      by (auto simp: download_def fail_fast_def clean_def)
  qed
qed

lemma fail_fast_args_loop:
  "clean e s \<Longrightarrow> fail_fast e (args_loop e c urls s)"
proof (induction urls arbitrary: s)
  case Nil
  then show ?case by (simp add: clean_fail_fast)
next
  case (Cons url urls)
  obtain r s' where d: "download e c s url = (r, s')"
    by (cases "download e c s url")
  from Cons.prems have ff: "fail_fast e (r, s')"
    using fail_fast_download [of e s c url] d by simp
  show ?case
  proof (cases r)
    case None
    with ff have "clean e (print_done s' url)"
      by (simp add: fail_fast_None clean_print_done)
    then show ?thesis
      using Cons.IH d None by simp
  next
    case (Some err)
    with ff d show ?thesis by simp
  qed
qed

lemma multiDownload_args_loop:
  "multiDownload e c lines s =
     args_loop e c (filter (\<lambda>u. u \<noteq> []) (map TrimSpace lines)) s"
proof (induction lines arbitrary: s)
  case Nil
  show ?case by simp
next
  case (Cons line lines)
  show ?case
    by (cases "download e c s (TrimSpace line)") (simp add: Cons.IH Let_def split: option.splits)
qed

lemma fail_fast_and_then:
  assumes "fail_fast e r" and "\<And>s. clean e s \<Longrightarrow> fail_fast e (f s)"
  shows "fail_fast e (and_then r f)"
proof (cases r)
  case (Pair a s)
  show ?thesis
  proof (cases a)
    case None
    with Pair assms show ?thesis
      by (simp add: and_then_def fail_fast_None)
  next
    case (Some err)
    with Pair assms(1) show ?thesis
      by (simp add: and_then_def)
  qed
qed

lemma submitted_header_loop: "submitted (snd (header_loop hs s)) = submitted s"
  by (induction hs arbitrary: s) (simp_all add: Let_def)

lemma fail_fast_header_stage: "clean e s \<Longrightarrow> fail_fast e (header_stage c s)"
proof -
  assume "clean e s"
  then have "clean e (snd (header_stage c s))"
    by (simp add: clean_def header_stage_def submitted_header_loop split: option.splits)
  then show ?thesis
    by (simp add: fail_fast_def)
qed

lemma fail_fast_run: "fail_fast e (run e c)"
proof (cases "Stdin_Stat e")
  case (Inl err)
  then show ?thesis
    by (simp add: run_def fail_fast_def clean_def init_state_def answers_def)
next
  case (Inr info)
  have "fail_fast e (create_dir e c (init_state e))"
    by (simp add: create_dir_def fail_fast_def clean_def init_state_def answers_def Let_def)
  moreover have "\<And>s. clean e s \<Longrightarrow> fail_fast e (set_agent c s)"
    by (simp add: set_agent_def fail_fast_def clean_def)
  moreover have "\<And>s. clean e s \<Longrightarrow> fail_fast e (stdin_stage e c info s)"
    by (simp add: stdin_stage_def multiDownload_args_loop fail_fast_args_loop clean_fail_fast)
  moreover have "\<And>s. clean e s \<Longrightarrow> fail_fast e (file_stage e c s)"
    by (simp add: file_stage_def multiDownload_args_loop fail_fast_args_loop clean_fail_fast
        split: sum.splits)
  ultimately show ?thesis
    using Inr by (simp add: run_def fail_fast_and_then fail_fast_header_stage fail_fast_args_loop)
qed

text \<open>
  Claim C1. If the engine fails on the request number \<open>k\<close> of a run (counted
  from 0 in the order of submission), that request is the last one the run submits,
  and the run returns exactly the error value the engine returned for it.
\<close>

theorem run_fail_fast:
  assumes "run e c = (r, s)" and "k < length (submitted s)"
    and "Do e (take k (submitted s)) (submitted s ! k) = Some err"
  shows "Suc k = length (submitted s) \<and> r = Some err"
proof -
  from fail_fast_run [of e c] assms(1)
  consider "clean e s"
    | ds d err' where "submitted s = ds @ [d]" "list_all (\<lambda>a. a = None) (answers e ds)"
        "Do e ds d = Some err'" "r = Some err'"
    by (auto simp: fail_fast_def)
  then show ?thesis
  proof cases
    case 1
    then have "answers e (submitted s) ! k = None"
      using assms(2) by (simp add: clean_def list_all_length length_answers)
    with assms(2,3) show ?thesis
      by (simp add: answers_nth)
  next
    case 2
    show ?thesis
    proof (cases "k < length ds")
      case True
      with 2(2) have "answers e ds ! k = None"
        by (simp add: list_all_length length_answers)
      with True have "Do e (take k ds) (ds ! k) = None"
        by (simp add: answers_nth)
      with True assms(3) 2(1) show ?thesis
        by (simp add: nth_append)
    next
      case False
      with assms(2) 2(1) have "k = length ds"
        by simp
      with assms(3) 2 show ?thesis
        by simp
    qed
  qed
qed

lemma getURL_a: "getURL ''http://a.test/1'' = Inr ''http://a.test/1''"
  by code_simp

lemma getURL_b: "getURL ''http://b.test/2'' = Inr ''http://b.test/2''"
  by code_simp

lemma run_example_fail:
  "run (example_env [] [] (fails_on ''http://b.test/2''))
       (example_cli [] [] None [''http://a.test/1'', ''http://b.test/2'', ''http://c.test/3''])
   = (Some (ErrorString ''boom''),
      \<lparr>HeaderSlice = [], UserAgent = ''got'',
       submitted = [request (example_cli [] [] None [''http://a.test/1'', ''http://b.test/2'', ''http://c.test/3'']) [] ''http://a.test/1'',
                    request (example_cli [] [] None [''http://a.test/1'', ''http://b.test/2'', ''http://c.test/3'']) [] ''http://b.test/2''],
       stdout = [CHR 0x1B] @ ''[2K'' @ [CHR 0xE2, CHR 0x9C, CHR 0x94] @ '' http://a.test/1'' @ [CHR 0x0A],
       mkdirs = []\<rparr>)"
  by (simp add: run_def example_env_def example_cli_def and_then_def create_dir_def set_agent_def
      stdin_stage_def file_stage_def header_stage_def piped_def init_state_def download_def
      getURL_a getURL_b fails_on_def request_def print_done_def)

theorem run_fail_fast_witness:
  "fst (run (example_env [] [] (fails_on ''http://b.test/2''))
            (example_cli [] [] None [''http://a.test/1'', ''http://b.test/2'', ''http://c.test/3'']))
     = Some (ErrorString ''boom'') \<and>
   length (submitted (snd (run (example_env [] [] (fails_on ''http://b.test/2''))
            (example_cli [] [] None [''http://a.test/1'', ''http://b.test/2'', ''http://c.test/3''])))) = 2"
proof -
  let ?e = "example_env [] [] (fails_on ''http://b.test/2'')"
  let ?c = "example_cli [] [] None [''http://a.test/1'', ''http://b.test/2'', ''http://c.test/3'']"
  obtain r s where rs: "run ?e ?c = (r, s)"
    by (cases "run ?e ?c")
  with run_example_fail have s: "submitted s = [request ?c [] ''http://a.test/1'', request ?c [] ''http://b.test/2'']"
    by simp
  then have k: "1 < length (submitted s)"
    by simp
  have "Do ?e (take 1 (submitted s)) (submitted s ! 1) = Some (ErrorString ''boom'')"
    by (simp add: s example_env_def fails_on_def request_def)
  from run_fail_fast [OF rs k this] rs show ?thesis
    by simp
qed

subsection \<open>The header flags\<close>

text \<open>
  Claim C4, as amended. For a header flag with at least one colon the loop appends
  exactly one entry: its key is the text before the first colon, its value the rest
  after that colon with leading and trailing white space removed
  (\<open>strings.TrimSpace\<close>). For a flag without colon the loop returns the error
  \<open>malformatted header\<close> followed by the flag, and appends nothing.
\<close>

theorem header_flag_entry:
  "header_loop [h] s =
     (if CHR '':'' \<in> set h
      then (None, s\<lparr>HeaderSlice := HeaderSlice s @
              [\<lparr>Key = takeWhile (\<lambda>c. c \<noteq> CHR '':'') h,
                Value = TrimSpace (tl (dropWhile (\<lambda>c. c \<noteq> CHR '':'') h))\<rparr>]\<rparr>)
      else (Some (ErrorString (''malformatted header '' @ h)), s))"
  by (simp add: SplitN_byte_2)

lemma TrimSpace_Bearer: "TrimSpace '' Bearer abc'' = ''Bearer abc''"
  by code_simp

theorem header_flag_entry_witness:
  "header_loop [''Authorization: Bearer abc''] (init_state (example_env [] [] always_ok)) =
     (None, (init_state (example_env [] [] always_ok))
              \<lparr>HeaderSlice := [\<lparr>Key = ''Authorization'', Value = ''Bearer abc''\<rparr>]\<rparr>) \<and>
   header_loop [''BadHeader''] (init_state (example_env [] [] always_ok)) =
     (Some (ErrorString ''malformatted header BadHeader''), init_state (example_env [] [] always_ok))"
  using header_flag_entry [of "''Authorization: Bearer abc''" "init_state (example_env [] [] always_ok)"]
    header_flag_entry [of "''BadHeader''" "init_state (example_env [] [] always_ok)"]
  by (simp add: TrimSpace_Bearer init_state_def)

lemma TrimSpace_V: "TrimSpace '' V '' = ''V''"
  by code_simp

lemma TrimLeftSpace_V: "TrimLeftSpace '' V '' = ''V ''"
  by code_simp

text \<open>
  The value is not the remainder with only its leading white space removed: for the
  flag \<open>K: V\<close> followed by a space the entry holds \<open>V\<close>, without the space.
\<close>

theorem header_value_counterexample:
  "map Value (HeaderSlice (snd (header_loop [''K: V ''] (init_state (example_env [] [] always_ok)))))
     \<noteq> [TrimLeftSpace '' V '']"
  by (simp add: SplitN_byte_2 TrimSpace_V TrimLeftSpace_V init_state_def)

lemma header_loop_all:
  "list_all (\<lambda>h. CHR '':'' \<in> set h) hs \<Longrightarrow>
   header_loop hs s =
     (None, s\<lparr>HeaderSlice := HeaderSlice s @
        map (\<lambda>h. \<lparr>Key = takeWhile (\<lambda>c. c \<noteq> CHR '':'') h,
                  Value = TrimSpace (tl (dropWhile (\<lambda>c. c \<noteq> CHR '':'') h))\<rparr>) hs\<rparr>)"
  by (induction hs arbitrary: s) (simp_all add: SplitN_byte_2)

subsection \<open>The order of dispatch\<close>

lemma extendsI:
  assumes "n \<le> length urls" and "submitted (snd rs) = submitted s @ ds"
    and "map (\<lambda>d. Inr (URL d)) ds = map getURL (take n urls)"
    and "fst rs = None \<Longrightarrow> n = length urls"
  shows "extends s urls rs"
proof -
  have "n \<le> length urls \<and> submitted (snd rs) = submitted s @ ds \<and>
        map (\<lambda>d. Inr (URL d)) ds = map getURL (take n urls) \<and>
        (fst rs = None \<longrightarrow> n = length urls)"
    using assms by simp
  then have "\<exists>ds. n \<le> length urls \<and> submitted (snd rs) = submitted s @ ds \<and>
        map (\<lambda>d. Inr (URL d)) ds = map getURL (take n urls) \<and>
        (fst rs = None \<longrightarrow> n = length urls)"
    by (rule exI)
  then show ?thesis
    unfolding extends_def by (rule exI)
qed

lemma extends_same: "submitted s' = submitted s \<Longrightarrow> extends s [] (r, s')"
  by (rule extendsI [where n = 0 and ds = "[]"]) simp_all

lemma URL_request: "URL (request c hs u) = u"
  by (simp add: request_def)

lemma extendsE:
  assumes "extends s urls rs"
  obtains n ds where "n \<le> length urls" and "submitted (snd rs) = submitted s @ ds"
    and "map (\<lambda>d. Inr (URL d)) ds = map getURL (take n urls)"
    and "fst rs = None \<longrightarrow> n = length urls"
  using assms unfolding extends_def by (elim exE conjE)

lemma args_loop_extends: "extends s urls (args_loop e c urls s)"
proof (induction urls arbitrary: s)
  case Nil
  show ?case by (simp add: extends_same)
next
  case (Cons url urls)
  show ?case
  proof (cases "getURL url")
    case (Inl err)
    then have "args_loop e c (url # urls) s = (Some err, s)"
      by (simp add: download_def)
    then show ?thesis
      by (intro extendsI [where n = 0 and ds = "[]"]) simp_all
  next
    case (Inr u)
    let ?d = "request c (HeaderSlice s) u"
    let ?s1 = "s\<lparr>submitted := submitted s @ [?d]\<rparr>"
    have dl: "download e c s url = (Do e (submitted s) ?d, ?s1)"
      using Inr by (simp add: download_def)
    show ?thesis
    proof (cases "Do e (submitted s) ?d")
      case (Some err)
      with dl have "args_loop e c (url # urls) s = (Some err, ?s1)"
        by simp
      then show ?thesis
        by (intro extendsI [where n = 1 and ds = "[?d]"]) (simp_all add: Inr URL_request)
    next
      case None
      with dl have al: "args_loop e c (url # urls) s = args_loop e c urls (print_done ?s1 url)"
        by simp
      from Cons.IH [of "print_done ?s1 url"] obtain n ds where
        n: "n \<le> length urls" and
        sub: "submitted (snd (args_loop e c urls (print_done ?s1 url))) = submitted (print_done ?s1 url) @ ds" and
        urls: "map (\<lambda>d. Inr (URL d)) ds = map getURL (take n urls)" and
        ok: "fst (args_loop e c urls (print_done ?s1 url)) = None \<longrightarrow> n = length urls"
        by (rule extendsE)
      show ?thesis
        using n sub urls ok al
        by (intro extendsI [where n = "Suc n" and ds = "?d # ds"])
           (simp_all add: submitted_print_done Inr URL_request)
    qed
  qed
qed

lemma multiDownload_extends:
  "extends s (filter (\<lambda>u. u \<noteq> []) (map TrimSpace lines)) (multiDownload e c lines s)"
  by (simp add: multiDownload_args_loop args_loop_extends)

lemma extends_and_then:
  assumes "extends s us1 r1" and "\<And>s1. r1 = (None, s1) \<Longrightarrow> extends s1 us2 (f s1)"
  shows "extends s (us1 @ us2) (and_then r1 f)"
proof (cases r1)
  case (Pair a s1)
  from assms(1) obtain n ds where
    n: "n \<le> length us1" and sub: "submitted (snd r1) = submitted s @ ds" and
    urls: "map (\<lambda>d. Inr (URL d)) ds = map getURL (take n us1)" and
    ok: "fst r1 = None \<longrightarrow> n = length us1"
    by (rule extendsE)
  show ?thesis
  proof (cases a)
    case (Some err)
    with Pair have "and_then r1 f = r1"
      by (simp add: and_then_def)
    with n sub urls Some Pair show ?thesis
      by (intro extendsI [where n = n and ds = ds]) simp_all
  next
    case None
    with Pair have at: "and_then r1 f = f s1"
      by (simp add: and_then_def)
    from None Pair ok have n1: "n = length us1"
      by simp
    from None Pair have "extends s1 us2 (f s1)"
      by (simp add: assms(2))
    then obtain m es where
      m: "m \<le> length us2" and sub2: "submitted (snd (f s1)) = submitted s1 @ es" and
      urls2: "map (\<lambda>d. Inr (URL d)) es = map getURL (take m us2)" and
      ok2: "fst (f s1) = None \<longrightarrow> m = length us2"
      by (rule extendsE)
    show ?thesis
      using m sub2 urls2 ok2 sub urls n1 Pair at
      by (intro extendsI [where n = "length us1 + m" and ds = "ds @ es"]) simp_all
  qed
qed

lemma run_extends:
  "extends (init_state e) (stdin_candidates e @ file_candidates e c @ flag_args c) (run e c)"
proof (cases "Stdin_Stat e")
  case (Inl err)
  then have "run e c = (Some err, init_state e)"
    by (simp add: run_def)
  then show ?thesis
    by (intro extendsI [where n = 0 and ds = "[]"]) simp_all
next
  case (Inr info)
  have 1: "extends (init_state e) [] (create_dir e c (init_state e))"
    by (simp add: create_dir_def extends_same Let_def)
  have 2: "\<And>s. extends s [] (set_agent c s)"
    by (simp add: set_agent_def extends_same)
  have 3: "\<And>s. extends s (stdin_candidates e) (stdin_stage e c info s)"
    by (simp add: stdin_stage_def stdin_candidates_def Inr candidates_of_def
        multiDownload_extends extends_same)
  have 4: "\<And>s. extends s (file_candidates e c) (file_stage e c s)"
    by (simp add: file_stage_def file_candidates_def candidates_of_def
        multiDownload_extends extends_same split: sum.splits)
  have 5: "extends s [] (header_stage c s)" for s
  proof -
    have "submitted (snd (header_stage c s)) = submitted s"
      by (simp add: header_stage_def submitted_header_loop split: option.splits)
    then have "extends s [] (fst (header_stage c s), snd (header_stage c s))"
      by (rule extends_same)
    then show ?thesis
      by simp
  qed
  have "extends (init_state e)
          ((((([] @ []) @ stdin_candidates e) @ file_candidates e c) @ []) @ flag_args c)
          (run e c)"
    unfolding run_def Inr sum.case
    by (intro extends_and_then 1 2 3 4 5 args_loop_extends)
  then show ?thesis
    by simp
qed

lemma map_Inr_URL:
  fixes ds :: "Download list"
  shows "map (\<lambda>d. Inr (URL d)) ds = map (Inr :: string \<Rightarrow> error + string) us \<Longrightarrow>
         map URL ds = us"
  by (induction ds arbitrary: us) auto

lemma piped_example: "piped \<lparr>Mode = ModeNamedPipe, Size = 0\<rparr>"
  by (simp add: piped_def ModeNamedPipe_def)

lemma TrimSpace_a: "TrimSpace ''a'' = ''a''"
  by code_simp

lemma TrimSpace_b: "TrimSpace ''b'' = ''b''"
  by code_simp

lemma TrimSpace_c: "TrimSpace ''c'' = ''c''"
  by code_simp

lemma TrimSpace_Nil: "TrimSpace [] = []"
  by code_simp

lemma getURL_bare_a: "getURL ''a'' = Inr ''https://a''"
  by code_simp

lemma getURL_bare_b: "getURL ''b'' = Inr ''https://b''"
  by code_simp

lemma getURL_bare_c: "getURL ''c'' = Inr ''https://c''"
  by code_simp

lemma getURL_bare_d: "getURL ''d'' = Inr ''https://d''"
  by code_simp

lemma getURL_empty: "getURL [] = Inr ''https:''"
  by code_simp

lemma tokens_a_blank_b:
  "Scanner_tokens [CHR ''a'', CHR 0x0A, CHR 0x0A, CHR ''b'', CHR 0x0A] = [''a'', [], ''b'']"
  using Scanner_tokens_line [of "''a''" "[CHR 0x0A, CHR ''b'', CHR 0x0A]"]
    Scanner_tokens_line [of "[]" "[CHR ''b'', CHR 0x0A]"]
    Scanner_tokens_line [of "''b''" "[]"]
  by (simp add: Scanner_tokens_Nil MaxScanTokenSize_def dropCR_def)

text \<open>
  The loop trims what the scanner yields and skips what is empty afterwards. On the
  input of the spec, a line \<open>a\<close>, an empty line and a line \<open>b\<close>, it submits
  the requests for \<open>a\<close> and \<open>b\<close>; on \<open>padded_input\<close> it submits the same
  two requests, the white space around \<open>a\<close>, the line of white space, the empty
  line and the carriage return after \<open>b\<close> having gone.
\<close>

lemma multiDownload_blank_line:
  "fst (multiDownload (example_env [] [] always_ok) (example_cli [] [] None [])
      (Scanner_tokens [CHR ''a'', CHR 0x0A, CHR 0x0A, CHR ''b'', CHR 0x0A])
      (init_state (example_env [] [] always_ok))) = None \<and>
   map URL (submitted (snd (multiDownload (example_env [] [] always_ok) (example_cli [] [] None [])
      (Scanner_tokens [CHR ''a'', CHR 0x0A, CHR 0x0A, CHR ''b'', CHR 0x0A])
      (init_state (example_env [] [] always_ok))))) =
     [''https://a'', ''https://b'']"
  by (simp add: tokens_a_blank_b TrimSpace_a TrimSpace_b TrimSpace_Nil
      download_def getURL_bare_a getURL_bare_b example_env_def always_ok_def Let_def
      init_state_def print_done_def request_def)

lemma tokens_padded_input:
  "Scanner_tokens padded_input = ['' a '', [CHR 0x20, CHR 0x09], [], ''b'']"
  using Scanner_tokens_line [of "'' a ''" "[CHR 0x20, CHR 0x09] @ [CHR 0x0A] @ [CHR 0x0A] @ ''b'' @ [CHR 0x0D, CHR 0x0A]"]
    Scanner_tokens_line [of "[CHR 0x20, CHR 0x09]" "[CHR 0x0A] @ ''b'' @ [CHR 0x0D, CHR 0x0A]"]
    Scanner_tokens_line [of "[]" "''b'' @ [CHR 0x0D, CHR 0x0A]"]
    Scanner_tokens_line [of "''b'' @ [CHR 0x0D]" "[]"]
  by (simp add: padded_input_def Scanner_tokens_Nil MaxScanTokenSize_def dropCR_def)

lemma TrimSpace_padded_a: "TrimSpace '' a '' = ''a''"
  by code_simp

lemma TrimSpace_blank: "TrimSpace [CHR 0x20, CHR 0x09] = []"
  by code_simp

lemma multiDownload_trims_and_skips:
  "fst (multiDownload (example_env [] [] always_ok) (example_cli [] [] None [])
      (Scanner_tokens padded_input) (init_state (example_env [] [] always_ok))) = None \<and>
   map URL (submitted (snd (multiDownload (example_env [] [] always_ok) (example_cli [] [] None [])
      (Scanner_tokens padded_input) (init_state (example_env [] [] always_ok))))) =
     [''https://a'', ''https://b'']"
  by (simp add: tokens_padded_input TrimSpace_padded_a TrimSpace_blank TrimSpace_b TrimSpace_Nil
      download_def getURL_bare_a getURL_bare_b example_env_def always_ok_def Let_def
      init_state_def print_done_def request_def)

text \<open>
  The long line: it holds no newline and no white space, and it is as long as the
  scanner's buffer.
\<close>

lemma newline_not_in_long_line: "CHR 0x0A \<notin> set long_line"
  by (simp add: long_line_def)

lemma length_long_line: "length long_line = 65536"
  by (simp add: long_line_def MaxScanTokenSize_def)

lemma long_line_not_Nil: "long_line \<noteq> []"
  using length_long_line by auto

lemma long_input_not_Nil: "long_input \<noteq> []"
  by (simp add: long_input_def)

lemma TrimSpace_replicate_x:
  assumes "0 < n"
  shows "TrimSpace (replicate n (CHR ''x'')) = replicate n (CHR ''x'')"
proof -
  from assms obtain m where n: "n = Suc m"
    by (cases n) auto
  have l: "trim_leading space_encodings (CHR ''x'' # replicate m (CHR ''x'')) =
      CHR ''x'' # replicate m (CHR ''x'')"
    by (subst trim_leading.simps) (simp add: leading_def space_encodings_def)
  have r: "trim_leading (map rev space_encodings) (CHR ''x'' # replicate m (CHR ''x'')) =
      CHR ''x'' # replicate m (CHR ''x'')"
    by (subst trim_leading.simps) (simp add: leading_def space_encodings_def)
  have "rev (replicate (Suc m) (CHR ''x'')) = replicate (Suc m) (CHR ''x'')"
    by (rule rev_replicate)
  then have rv: "rev (CHR ''x'' # replicate m (CHR ''x'')) = CHR ''x'' # replicate m (CHR ''x'')"
    by (simp only: replicate_Suc)
  show ?thesis
    unfolding n replicate_Suc TrimSpace_def TrimLeftSpace_def TrimRightSpace_def l rv r
    by (rule refl)
qed

lemma TrimSpace_long_line: "TrimSpace long_line = long_line"
  unfolding long_line_def by (rule TrimSpace_replicate_x) (simp add: MaxScanTokenSize_def)

lemma spec_lines_long_input: "spec_lines long_input = [''a'', long_line, ''b'']"
proof -
  have "spec_lines long_input = ''a'' # spec_lines (long_line @ CHR 0x0A # ''b'' @ [CHR 0x0A])"
    using spec_lines_line [of "''a''" "long_line @ CHR 0x0A # ''b'' @ [CHR 0x0A]"]
    by (simp add: long_input_def)
  also have "spec_lines (long_line @ CHR 0x0A # ''b'' @ [CHR 0x0A]) =
      long_line # spec_lines (''b'' @ [CHR 0x0A])"
    by (rule spec_lines_line) (rule newline_not_in_long_line)
  also have "spec_lines (''b'' @ [CHR 0x0A]) = [''b'']"
    by (simp add: spec_lines_def)
  finally show ?thesis .
qed

lemma spec_candidates_long_input: "spec_candidates long_input = [''a'', long_line, ''b'']"
  by (simp add: spec_candidates_def spec_lines_long_input TrimSpace_a TrimSpace_b
      TrimSpace_long_line long_line_not_Nil)

lemma tokens_long_input: "Scanner_tokens long_input = [''a'']"
proof -
  have "Scanner_tokens long_input =
      dropCR ''a'' # Scanner_tokens (long_line @ CHR 0x0A # ''b'' @ [CHR 0x0A])"
    using Scanner_tokens_line [of "''a''" "long_line @ CHR 0x0A # ''b'' @ [CHR 0x0A]"]
    by (simp add: long_input_def MaxScanTokenSize_def)
  also have "Scanner_tokens (long_line @ CHR 0x0A # ''b'' @ [CHR 0x0A]) = []"
    by (rule Scanner_tokens_too_long) (simp_all add: newline_not_in_long_line long_line_def)
  finally show ?thesis
    by (simp add: dropCR_def)
qed

text \<open>
  Claim C8 does not hold of the code: the scanner keeps a line in a buffer of 65536
  bytes, \<open>Scan\<close> returns false at the first line that does not fit, and
  \<open>multiDownload\<close> leaves the loop without reading \<open>scanner.Err()\<close> and returns
  \<open>nil\<close>. Standard input holds the three lines of \<open>long_input\<close>, none of them
  empty after trimming: the spec counts three candidates, the scanner yields the
  line \<open>a\<close> only, and the run submits the one request for \<open>a\<close> and returns no
  error; the line \<open>b\<close> is never read. On inputs whose lines all fit the buffer
  the scanner yields every line (\<open>Scanner_tokens_spec_lines\<close>) and the loop
  submits the trimmed non-empty ones in their order (\<open>multiDownload_extends\<close>).
\<close>

theorem scanner_stops_at_long_line:
  "spec_candidates long_input = [''a'', long_line, ''b''] \<and>
   Scanner_tokens long_input = [''a''] \<and>
   fst (run (example_env long_input [] always_ok) (example_cli [] [] None [])) = None \<and>
   map URL (submitted (snd (run (example_env long_input [] always_ok) (example_cli [] [] None [])))) =
     [''https://a'']"
  by (simp add: spec_candidates_long_input tokens_long_input long_input_not_Nil
      run_def example_env_def example_cli_def and_then_def create_dir_def
      set_agent_def stdin_stage_def file_stage_def header_stage_def piped_example
      init_state_def multiDownload_args_loop TrimSpace_a download_def
      getURL_bare_a always_ok_def print_done_def request_def)

text \<open>
  Claim C3. In a run where standard input is piped, the batch file opens and
  positional arguments are given, the requests are submitted in the order of
  aggregation: the URLs of the submitted requests are the normalised forms of a
  prefix of the list made of the candidates of standard input, then the candidates
  of the batch file, then the positional arguments, each source in its own order;
  when the run returns no error the prefix is the whole list. The example is the one
  of the spec: standard input with the lines \<open>a\<close> and \<open>b\<close>, a batch file with
  the line \<open>c\<close> and the argument \<open>d\<close>.
\<close>

theorem run_aggregation_order:
  assumes "Stdin_Stat e = Inr info" and "piped info"
    and "flag_file c \<noteq> []" and "Open e (flag_file c) = Inr file"
    and "run e c = (r, s)"
  shows "\<exists>n. n \<le> length (candidates_of (Stdin_data e) @ candidates_of file @ flag_args c) \<and>
           map (\<lambda>d. Inr (URL d)) (submitted s) =
             map getURL (take n (candidates_of (Stdin_data e) @ candidates_of file @ flag_args c)) \<and>
           (r = None \<longrightarrow>
              n = length (candidates_of (Stdin_data e) @ candidates_of file @ flag_args c))"
proof -
  let ?agg = "candidates_of (Stdin_data e) @ candidates_of file @ flag_args c"
  from assms(1-4) have agg: "stdin_candidates e @ file_candidates e c @ flag_args c = ?agg"
    by (simp add: stdin_candidates_def file_candidates_def)
  have "extends (init_state e) ?agg (run e c)"
    using run_extends [of e c] unfolding agg .
  then obtain n ds where "n \<le> length ?agg"
    and "submitted (snd (run e c)) = submitted (init_state e) @ ds"
    and "map (\<lambda>d. Inr (URL d)) ds = map getURL (take n ?agg)"
    and "fst (run e c) = None \<longrightarrow> n = length ?agg"
    by (rule extendsE)
  with assms(5) have "n \<le> length ?agg \<and>
      map (\<lambda>d. Inr (URL d)) (submitted s) = map getURL (take n ?agg) \<and>
      (r = None \<longrightarrow> n = length ?agg)"
    by (simp add: init_state_def)
  then show ?thesis
    by (rule exI)
qed

lemma tokens_a_b:
  "Scanner_tokens [CHR ''a'', CHR 0x0A, CHR ''b'', CHR 0x0A] = [''a'', ''b'']"
  using Scanner_tokens_line [of "''a''" "[CHR ''b'', CHR 0x0A]"]
    Scanner_tokens_line [of "''b''" "[]"]
  by (simp add: Scanner_tokens_Nil MaxScanTokenSize_def dropCR_def)

lemma tokens_c:
  "Scanner_tokens [CHR ''c'', CHR 0x0A] = [''c'']"
  using Scanner_tokens_line [of "''c''" "[]"]
  by (simp add: Scanner_tokens_Nil MaxScanTokenSize_def dropCR_def)

theorem run_aggregation_order_witness:
  "map URL (submitted (snd (run
      (example_env [CHR ''a'', CHR 0x0A, CHR ''b'', CHR 0x0A] [CHR ''c'', CHR 0x0A] always_ok)
      (example_cli [] ''urls.txt'' None [''d'']))))
   = [''https://a'', ''https://b'', ''https://c'', ''https://d'']"
proof -
  let ?e = "example_env [CHR ''a'', CHR 0x0A, CHR ''b'', CHR 0x0A] [CHR ''c'', CHR 0x0A] always_ok"
  let ?c = "example_cli [] ''urls.txt'' None [''d'']"
  let ?info = "\<lparr>Mode = ModeNamedPipe, Size = 0\<rparr>"
  obtain r s where rs: "run ?e ?c = (r, s)"
    by (cases "run ?e ?c")
  have stat: "Stdin_Stat ?e = Inr ?info"
    by (simp add: example_env_def)
  have fl: "flag_file ?c \<noteq> []"
    by (simp add: example_cli_def)
  have opn: "Open ?e (flag_file ?c) = Inr [CHR ''c'', CHR 0x0A]"
    by (simp add: example_env_def example_cli_def)
  have agg: "candidates_of (Stdin_data ?e) @ candidates_of [CHR ''c'', CHR 0x0A] @ flag_args ?c
      = [''a'', ''b'', ''c'', ''d'']"
    by (simp add: candidates_of_def example_env_def example_cli_def tokens_a_b tokens_c
        TrimSpace_a TrimSpace_b TrimSpace_c)
  have ok: "r = None"
    using rs
    by (simp add: run_def example_env_def example_cli_def and_then_def create_dir_def
        set_agent_def stdin_stage_def file_stage_def header_stage_def piped_example
        init_state_def multiDownload_args_loop tokens_a_b tokens_c TrimSpace_a TrimSpace_b
        TrimSpace_c download_def getURL_bare_a getURL_bare_b getURL_bare_c getURL_bare_d
        always_ok_def)
  from run_aggregation_order [OF stat piped_example fl opn rs] obtain n where
    "map (\<lambda>d. Inr (URL d)) (submitted s) = map getURL (take n [''a'', ''b'', ''c'', ''d''])"
    and "r = None \<longrightarrow> n = length [''a'', ''b'', ''c'', ''d'']"
    unfolding agg by (elim exE conjE)
  with ok have "map (\<lambda>d. Inr (URL d)) (submitted s)
      = map (Inr :: string \<Rightarrow> error + string) [''https://a'', ''https://b'', ''https://c'', ''https://d'']"
    by (simp add: getURL_bare_a getURL_bare_b getURL_bare_c getURL_bare_d)
  then have "map URL (submitted s) = [''https://a'', ''https://b'', ''https://c'', ''https://d'']"
    by (rule map_Inr_URL)
  with rs show ?thesis
    by simp
qed

subsection \<open>Positional arguments\<close>

lemma drop_take_append: "drop (length xs) (take m (xs @ ys)) = take (m - length xs) ys"
proof (induction xs arbitrary: m)
  case Nil
  show ?case by simp
next
  case (Cons x xs)
  then show ?case
    by (cases m) simp_all
qed

text \<open>
  Claim C10. The positional arguments reach \<open>getURL\<close> and the engine as they were
  given: the last requests a run submits are the normalised forms of the leading
  arguments themselves, neither trimmed nor filtered, and of all the arguments when
  the run returns no error. So an empty argument is normalised (to \<open>https:\<close>) and
  submitted, whereas \<open>multiDownload\<close> skips an empty line.
\<close>

theorem positional_args_as_given:
  assumes "run e c = (r, s)"
  shows "\<exists>n ds ds'. n \<le> length (flag_args c) \<and> submitted s = ds @ ds' \<and>
           map (\<lambda>d. Inr (URL d)) ds' = map getURL (take n (flag_args c)) \<and>
           (r = None \<longrightarrow> n = length (flag_args c))"
proof -
  define pre where "pre = stdin_candidates e @ file_candidates e c"
  have "extends (init_state e) (pre @ flag_args c) (run e c)"
    using run_extends [of e c] by (simp add: pre_def)
  then obtain m ds0 where m: "m \<le> length (pre @ flag_args c)"
    and sub: "submitted (snd (run e c)) = submitted (init_state e) @ ds0"
    and urls: "map (\<lambda>d. Inr (URL d)) ds0 = map getURL (take m (pre @ flag_args c))"
    and ok: "fst (run e c) = None \<longrightarrow> m = length (pre @ flag_args c)"
    by (rule extendsE)
  define k where "k = length pre"
  have "drop k (map (\<lambda>d. Inr (URL d)) ds0) = drop k (map getURL (take m (pre @ flag_args c)))"
    using urls by (rule arg_cong)
  then have "map (\<lambda>d. Inr (URL d)) (drop k ds0) = map getURL (drop k (take m (pre @ flag_args c)))"
    by (simp only: drop_map)
  then have u: "map (\<lambda>d. Inr (URL d)) (drop k ds0) = map getURL (take (m - k) (flag_args c))"
    unfolding k_def by (simp only: drop_take_append)
  have "m - k \<le> length (flag_args c) \<and> submitted s = take k ds0 @ drop k ds0 \<and>
        map (\<lambda>d. Inr (URL d)) (drop k ds0) = map getURL (take (m - k) (flag_args c)) \<and>
        (r = None \<longrightarrow> m - k = length (flag_args c))"
    using m sub u ok assms by (simp add: init_state_def k_def)
  then have "\<exists>ds'. m - k \<le> length (flag_args c) \<and> submitted s = take k ds0 @ ds' \<and>
        map (\<lambda>d. Inr (URL d)) ds' = map getURL (take (m - k) (flag_args c)) \<and>
        (r = None \<longrightarrow> m - k = length (flag_args c))"
    by (rule exI)
  then have "\<exists>ds ds'. m - k \<le> length (flag_args c) \<and> submitted s = ds @ ds' \<and>
        map (\<lambda>d. Inr (URL d)) ds' = map getURL (take (m - k) (flag_args c)) \<and>
        (r = None \<longrightarrow> m - k = length (flag_args c))"
    by (rule exI)
  then show ?thesis
    by (rule exI)
qed

lemma run_empty_arg:
  "run (example_env [] [] always_ok) (example_cli [] [] None [[]]) =
     (None, (init_state (example_env [] [] always_ok))
       \<lparr>submitted := [request (example_cli [] [] None [[]]) [] ''https:''],
        stdout := [CHR 0x1B] @ ''[2K'' @ [CHR 0xE2, CHR 0x9C, CHR 0x94] @ '' '' @ [CHR 0x0A]\<rparr>)"
  by (simp add: run_def example_env_def example_cli_def and_then_def create_dir_def
      set_agent_def stdin_stage_def file_stage_def header_stage_def piped_def
      init_state_def download_def getURL_empty always_ok_def print_done_def)

theorem positional_args_as_given_witness:
  "map URL (submitted (snd (run (example_env [] [] always_ok) (example_cli [] [] None [[]]))))
     = [''https:''] \<and>
   submitted (snd (multiDownload (example_env [] [] always_ok) (example_cli [] [] None [[]]) [[]]
     (init_state (example_env [] [] always_ok)))) = []"
proof -
  let ?e = "example_env [] [] always_ok"
  let ?c = "example_cli [] [] None [[]]"
  obtain r s where rs: "run ?e ?c = (r, s)"
    by (cases "run ?e ?c")
  with run_empty_arg have ok: "r = None" and len: "length (submitted s) = 1"
    by (simp_all add: init_state_def)
  from positional_args_as_given [OF rs] obtain n ds ds' where
    n: "n \<le> length (flag_args ?c)" and sub: "submitted s = ds @ ds'"
    and urls: "map (\<lambda>d. Inr (URL d)) ds' = map getURL (take n (flag_args ?c))"
    and all: "r = None \<longrightarrow> n = length (flag_args ?c)"
    by (elim exE conjE)
  from all ok have "n = 1"
    by (simp add: example_cli_def)
  with urls have u: "map (\<lambda>d. Inr (URL d)) ds' = map (Inr :: string \<Rightarrow> error + string) [''https:'']"
    by (simp add: example_cli_def getURL_empty)
  then have "map URL ds' = [''https:'']"
    by (rule map_Inr_URL)
  moreover from this have "length ds' = 1"
    by (metis length_map length_Cons list.size(3) One_nat_def)
  with sub len have "ds = []"
    by simp
  ultimately have "map URL (submitted s) = [''https:'']"
    using sub by simp
  moreover have "submitted (snd (multiDownload ?e ?c [[]] (init_state ?e))) = []"
    by (simp add: TrimSpace_Nil init_state_def)
  ultimately show ?thesis
    using rs by simp
qed

subsection \<open>The destination directory\<close>

lemma download_MkdirAll: "download (e\<lparr>MkdirAll := m\<rparr>) c s url = download e c s url"
  by (simp add: download_def split: sum.splits)

lemma args_loop_MkdirAll: "args_loop (e\<lparr>MkdirAll := m\<rparr>) c urls s = args_loop e c urls s"
  by (induction urls arbitrary: s) (simp_all add: download_MkdirAll split: prod.splits option.splits)

lemma multiDownload_MkdirAll:
  "multiDownload (e\<lparr>MkdirAll := m\<rparr>) c lines s = multiDownload e c lines s"
  by (simp add: multiDownload_args_loop args_loop_MkdirAll)

lemma mkdirs_args_loop: "mkdirs (snd (args_loop e c urls s)) = mkdirs s"
proof (induction urls arbitrary: s)
  case Nil
  show ?case by simp
next
  case (Cons url urls)
  show ?case
  proof (cases "getURL url")
    case (Inl err)
    then show ?thesis by (simp add: download_def)
  next
    case (Inr u)
    then show ?thesis
      by (cases "Do e (submitted s) (request c (HeaderSlice s) u)")
         (simp_all add: download_def Cons.IH print_done_def)
  qed
qed

lemma mkdirs_header_loop: "mkdirs (snd (header_loop hs s)) = mkdirs s"
  by (induction hs arbitrary: s) (simp_all add: Let_def)

lemma mkdirs_and_then:
  assumes "mkdirs (snd r) = ms" and "\<And>s. mkdirs (snd (f s)) = mkdirs s"
  shows "mkdirs (snd (and_then r f)) = ms"
  using assms by (cases r) (simp add: and_then_def split: option.splits)

text \<open>
  The result of \<open>os.MkdirAll\<close> has no influence on a run: line 117 calls it, when
  the directory flag is set and \<open>os.Stat\<close> reports that the directory does not exist,
  and does not read what it returns.
\<close>

lemma run_MkdirAll_result_unread:
  "run (e\<lparr>MkdirAll := m\<rparr>) c = run e c \<and>
   (Stdin_Stat e = Inr info \<longrightarrow>
      mkdirs (snd (run e c)) =
        (if flag_dir c \<noteq> [] \<and> IsNotExist (Stat e (flag_dir c)) then [flag_dir c] else []))"
proof
  have "create_dir (e\<lparr>MkdirAll := m\<rparr>) c = create_dir e c"
    by (rule ext) (simp add: create_dir_def Let_def)
  moreover have "stdin_stage (e\<lparr>MkdirAll := m\<rparr>) c = stdin_stage e c"
    by (intro ext) (simp add: stdin_stage_def multiDownload_MkdirAll)
  moreover have "file_stage (e\<lparr>MkdirAll := m\<rparr>) c = file_stage e c"
    by (rule ext) (simp add: file_stage_def multiDownload_MkdirAll split: sum.splits)
  moreover have "args_loop (e\<lparr>MkdirAll := m\<rparr>) c (flag_args c) = args_loop e c (flag_args c)"
    by (rule ext) (rule args_loop_MkdirAll)
  ultimately show "run (e\<lparr>MkdirAll := m\<rparr>) c = run e c"
    by (simp add: run_def init_state_def split: sum.splits)
next
  show "Stdin_Stat e = Inr info \<longrightarrow>
      mkdirs (snd (run e c)) =
        (if flag_dir c \<noteq> [] \<and> IsNotExist (Stat e (flag_dir c)) then [flag_dir c] else [])"
  proof
    assume st: "Stdin_Stat e = Inr info"
    let ?ms = "if flag_dir c \<noteq> [] \<and> IsNotExist (Stat e (flag_dir c)) then [flag_dir c] else []"
    have 1: "mkdirs (snd (create_dir e c (init_state e))) = ?ms"
      by (simp add: create_dir_def Let_def init_state_def)
    have 2: "\<And>s. mkdirs (snd (set_agent c s)) = mkdirs s"
      by (simp add: set_agent_def)
    have 3: "\<And>s. mkdirs (snd (stdin_stage e c info s)) = mkdirs s"
      by (simp add: stdin_stage_def multiDownload_args_loop mkdirs_args_loop)
    have 4: "\<And>s. mkdirs (snd (file_stage e c s)) = mkdirs s"
      by (simp add: file_stage_def multiDownload_args_loop mkdirs_args_loop split: sum.splits)
    have 5: "\<And>s. mkdirs (snd (header_stage c s)) = mkdirs s"
      by (simp add: header_stage_def mkdirs_header_loop split: option.splits)
    show "mkdirs (snd (run e c)) = ?ms"
      unfolding run_def st sum.case
      by (intro mkdirs_and_then 1 2 3 4 5 mkdirs_args_loop)
  qed
qed

lemma run_example_dir:
  "run (example_env [] [] always_ok) (example_cli ''out'' [] None [''d'']) =
     (None, (init_state (example_env [] [] always_ok))
       \<lparr>submitted := [request (example_cli ''out'' [] None [''d'']) [] ''https://d''],
        stdout := [CHR 0x1B] @ ''[2K'' @ [CHR 0xE2, CHR 0x9C, CHR 0x94] @ '' d'' @ [CHR 0x0A],
        mkdirs := [''out'']\<rparr>)"
  by (simp add: run_def example_env_def example_cli_def and_then_def create_dir_def
      set_agent_def stdin_stage_def file_stage_def header_stage_def piped_def
      init_state_def download_def getURL_bare_d always_ok_def print_done_def IsNotExist_def)

text \<open>
  Claim C7 does not hold of the code: \<open>run\<close> returns the errors of
  \<open>os.Stdin.Stat\<close>, of \<open>os.Open\<close> and of every download, but not the one of
  \<open>os.MkdirAll\<close>. With the directory flag \<open>out\<close>, a directory that does not
  exist and cannot be created, and the argument \<open>d\<close>, the run asks for the
  directory, goes on, submits the request for \<open>d\<close> and returns no error, where
  the claim has it stop with an error before any download.
\<close>

theorem create_dir_failure_not_reported:
  "IsNotExist (Stat (example_env [] [] always_ok) ''out'') \<and>
   MkdirAll (example_env [] [] always_ok) ''out'' = Some (PathError ''mkdir'' ''out'' EACCES) \<and>
   mkdirs (snd (run (example_env [] [] always_ok) (example_cli ''out'' [] None [''d'']))) = [''out''] \<and>
   fst (run (example_env [] [] always_ok) (example_cli ''out'' [] None [''d''])) = None \<and>
   map URL (submitted (snd (run (example_env [] [] always_ok) (example_cli ''out'' [] None [''d''])))) =
     [''https://d'']"
  by (simp add: run_example_dir request_def) (simp add: example_env_def IsNotExist_def)

lemma tokens_a: "Scanner_tokens [CHR ''a'', CHR 0x0A] = [''a'']"
  using Scanner_tokens_line [of "''a''" "[]"]
  by (simp add: Scanner_tokens_Nil MaxScanTokenSize_def dropCR_def)

lemma TrimSpace_sp_V: "TrimSpace '' V'' = ''V''"
  by code_simp

subsection \<open>The header list of the requests\<close>

lemma headless_download: "headless s \<Longrightarrow> headless (snd (download e c s url))"
  by (cases "getURL url") (simp_all add: download_def headless_def request_def)

lemma headless_print_done: "headless (print_done s url) = headless s"
  by (simp add: headless_def print_done_def)

lemma headless_args_loop: "headless s \<Longrightarrow> headless (snd (args_loop e c urls s))"
proof (induction urls arbitrary: s)
  case Nil
  then show ?case by simp
next
  case (Cons url urls)
  obtain r s' where d: "download e c s url = (r, s')"
    by (cases "download e c s url")
  with Cons.prems have h: "headless s'"
    using headless_download [of s e c url] by simp
  show ?case
  proof (cases r)
    case None
    with d h show ?thesis
      by (simp add: Cons.IH headless_print_done)
  next
    case (Some err)
    with d h show ?thesis
      by simp
  qed
qed

lemma headless_and_then:
  assumes "headless (snd r)" and "\<And>s. headless s \<Longrightarrow> headless (snd (f s))"
  shows "headless (snd (and_then r f))"
  using assms by (cases r) (simp add: and_then_def split: option.splits)

lemma submitted_args_loop_prefix: "take (length (submitted s)) (submitted (snd (args_loop e c urls s))) = submitted s"
proof -
  have "extends s urls (args_loop e c urls s)"
    by (rule args_loop_extends)
  then obtain n ds where "submitted (snd (args_loop e c urls s)) = submitted s @ ds"
    by (rule extendsE)
  then show ?thesis
    by simp
qed

lemma run_piped_stages:
  "Stdin_Stat e = Inr info \<Longrightarrow>
   run e c = and_then (and_then (piped_stages e c info) (header_stage c)) (args_loop e c (flag_args c))"
  by (simp add: run_def piped_stages_def)

lemma headless_piped_stages: "headless (snd (piped_stages e c info))"
  unfolding piped_stages_def
proof (intro headless_and_then)
  show "headless (snd (create_dir e c (init_state e)))"
    by (simp add: create_dir_def Let_def headless_def init_state_def)
next
  fix s assume "headless s"
  then show "headless (snd (set_agent c s))"
    by (simp add: set_agent_def headless_def)
next
  fix s assume "headless s"
  then show "headless (snd (stdin_stage e c info s))"
    by (simp add: stdin_stage_def multiDownload_args_loop headless_args_loop)
next
  fix s assume "headless s"
  then show "headless (snd (file_stage e c s))"
    by (simp add: file_stage_def multiDownload_args_loop headless_args_loop split: sum.splits)
qed

lemma extends_piped_stages:
  assumes "Stdin_Stat e = Inr info"
  shows "extends (init_state e) (stdin_candidates e @ file_candidates e c) (piped_stages e c info)"
proof -
  have 1: "extends (init_state e) [] (create_dir e c (init_state e))"
    by (simp add: create_dir_def extends_same Let_def)
  have 2: "\<And>s. extends s [] (set_agent c s)"
    by (simp add: set_agent_def extends_same)
  have 3: "\<And>s. extends s (stdin_candidates e) (stdin_stage e c info s)"
    by (simp add: stdin_stage_def stdin_candidates_def assms candidates_of_def
        multiDownload_extends extends_same)
  have 4: "\<And>s. extends s (file_candidates e c) (file_stage e c s)"
    by (simp add: file_stage_def file_candidates_def candidates_of_def
        multiDownload_extends extends_same split: sum.splits)
  have "extends (init_state e) ((([] @ []) @ stdin_candidates e) @ file_candidates e c)
          (piped_stages e c info)"
    unfolding piped_stages_def by (intro extends_and_then 1 2 3 4)
  then show ?thesis
    by simp
qed

lemma piped_requests_headless:
  assumes "run e c = (r, s)"
  shows "list_all (\<lambda>d. Header d = [])
           (take (length (stdin_candidates e @ file_candidates e c)) (submitted s))"
proof (cases "Stdin_Stat e")
  case (Inl err)
  with assms show ?thesis
    by (auto simp: run_def init_state_def)
next
  case (Inr info)
  define pre where "pre = stdin_candidates e @ file_candidates e c"
  obtain a s4 where p: "piped_stages e c info = (a, s4)"
    by (cases "piped_stages e c info")
  from headless_piped_stages [of e c info] p have h: "list_all (\<lambda>d. Header d = []) (submitted s4)"
    by (simp add: headless_def)
  from extends_piped_stages [OF Inr, of c] p have "extends (init_state e) pre (a, s4)"
    by (simp add: pre_def)
  then obtain n ds where
    n: "n \<le> length pre" and sub: "submitted (snd (a, s4)) = submitted (init_state e) @ ds"
    and urls: "map (\<lambda>d. Inr (URL d)) ds = map getURL (take n pre)"
    and ok: "fst (a, s4) = None \<longrightarrow> n = length pre"
    by (rule extendsE)
  from urls have "length ds = length (take n pre)"
    by (metis length_map)
  with n sub have len: "length (submitted s4) = n"
    by (simp add: init_state_def)
  show ?thesis
  proof (cases a)
    case (Some err)
    with p assms Inr have "s = s4"
      by (simp add: run_piped_stages and_then_def)
    with h show ?thesis
      by (simp add: list_all_iff) (meson in_set_takeD)
  next
    case None
    with ok len have len4: "length (submitted s4) = length pre"
      by simp
    obtain b s5 where hs: "header_stage c s4 = (b, s5)"
      by (cases "header_stage c s4")
    have s5: "submitted s5 = submitted s4"
      using hs submitted_header_loop [of _ s4]
      by (auto simp: header_stage_def split: option.splits) (metis snd_conv)
    have "take (length pre) (submitted s) = submitted s4"
    proof (cases b)
      case (Some err)
      with None p hs assms Inr have "s = s5"
        by (simp add: run_piped_stages and_then_def)
      with s5 len4 show ?thesis
        by simp
    next
      case bNone: None
      with None p hs assms Inr have "args_loop e c (flag_args c) s5 = (r, s)"
        by (simp add: run_piped_stages and_then_def)
      with submitted_args_loop_prefix [of s5 e c "flag_args c"] s5 len4 show ?thesis
        by simp
    qed
    with h show ?thesis
      by (simp add: pre_def)
  qed
qed

text \<open>
  Claim C2 does not hold of the code: the header flags are parsed after the stages
  for standard input and the batch file (lines 146 to 156 follow lines 126 to 144).
  With a line \<open>a\<close> on standard input, the header flag \<open>K: V\<close> and the argument
  \<open>d\<close>, the request for \<open>a\<close> carries no header and the request for \<open>d\<close>
  carries the header. With a malformed header flag the request for \<open>a\<close> has been
  submitted before the run returns the format error. In every run the requests for
  the candidates of standard input and of the batch file carry an empty header list
  (\<open>piped_requests_headless\<close>).
\<close>

theorem headers_parsed_after_piped_downloads:
  "map Header (submitted (snd (run (example_env [CHR ''a'', CHR 0x0A] [] always_ok)
      (example_cli [] [] (Some [''K: V'']) [''d''])))) =
     [[], [\<lparr>Key = ''K'', Value = ''V''\<rparr>]] \<and>
   fst (run (example_env [CHR ''a'', CHR 0x0A] [] always_ok)
      (example_cli [] [] (Some [''BadHeader'']) [''d''])) =
     Some (ErrorString ''malformatted header BadHeader'') \<and>
   map URL (submitted (snd (run (example_env [CHR ''a'', CHR 0x0A] [] always_ok)
      (example_cli [] [] (Some [''BadHeader'']) [''d''])))) = [''https://a'']"
  by (simp add: run_def example_env_def example_cli_def and_then_def create_dir_def
      set_agent_def stdin_stage_def file_stage_def header_stage_def piped_example
      init_state_def multiDownload_args_loop tokens_a TrimSpace_a download_def
      getURL_bare_a getURL_bare_d always_ok_def print_done_def request_def
      SplitN_byte_2 TrimSpace_sp_V)

subsection \<open>The progress callback\<close>

lemma bar_max_ProgressFunc: "bar_max (ProgressFunc p d) = TotalSize d"
  by (simp add: ProgressFunc_def Add_def ChangeMax_def)

lemma currentNum_ProgressFunc: "currentNum (ProgressFunc p d) = currentNum p + Size d"
  by (simp add: ProgressFunc_def Add_def ChangeMax_def)

lemma currentNum_callbacks:
  "currentNum (foldl ProgressFunc p ds) = currentNum p + sum_list (map Size ds)"
  by (induction ds arbitrary: p) (simp_all add: currentNum_ProgressFunc add.assoc)

text \<open>
  Claim C6 does not hold of the code: the callback passes the bytes transferred so
  far to \<open>Add\<close>, so the position grows by the cumulative count at every call
  (\<open>currentNum_callbacks\<close>). After the reports (100, 10) and (100, 20) the maximum is
  100 and the position is 30, where 20 bytes have been transferred.
\<close>

theorem progress_adds_cumulative_size:
  "currentNum (foldl ProgressFunc (progressbar_New 0)
      [\<lparr>TotalSize = 100, Size = 10\<rparr>, \<lparr>TotalSize = 100, Size = 20\<rparr>]) = 30 \<and>
   bar_max (foldl ProgressFunc (progressbar_New 0)
      [\<lparr>TotalSize = 100, Size = 10\<rparr>, \<lparr>TotalSize = 100, Size = 20\<rparr>]) = 100"
  by (simp add: ProgressFunc_def Add_def ChangeMax_def progressbar_New_def)

subsection \<open>URL normalisation\<close>

lemma getScheme_loop_found:
  assumes "getScheme_loop raw pre s = Inr (sch, rest)" and "sch \<noteq> []"
  shows "\<exists>t. sch = pre @ t \<and> s = t @ CHR '':'' # rest \<and> list_all schemeChar t \<and>
            (pre = [] \<longrightarrow> t \<noteq> [] \<and> isLetter (hd t))"
  using assms
proof (induction s arbitrary: pre)
  case Nil
  then show ?case by simp
next
  case (Cons c cs)
  show ?case
  proof (cases "isLetter c")
    case True
    with Cons.prems have "getScheme_loop raw (pre @ [c]) cs = Inr (sch, rest)"
      by simp
    from Cons.IH [OF this Cons.prems(2)] obtain t where
      "sch = (pre @ [c]) @ t" and "cs = t @ CHR '':'' # rest" and "list_all schemeChar t"
      by (elim exE conjE)
    with True have "sch = pre @ (c # t) \<and> c # cs = (c # t) @ CHR '':'' # rest \<and>
        list_all schemeChar (c # t) \<and> (pre = [] \<longrightarrow> c # t \<noteq> [] \<and> isLetter (hd (c # t)))"
      by (simp add: schemeChar_def)
    then show ?thesis
      by (rule exI)
  next
    case False
    show ?thesis
    proof (cases "isDigit c \<or> c = CHR ''+'' \<or> c = CHR ''-'' \<or> c = CHR ''.''")
      case True
      show ?thesis
      proof (cases "pre = []")
        case True
        with False \<open>isDigit c \<or> c = CHR ''+'' \<or> c = CHR ''-'' \<or> c = CHR ''.''\<close> Cons.prems
        show ?thesis by auto
      next
        case nonempty: False
        with False True Cons.prems have "getScheme_loop raw (pre @ [c]) cs = Inr (sch, rest)"
          by auto
        from Cons.IH [OF this Cons.prems(2)] obtain t where
          "sch = (pre @ [c]) @ t" and "cs = t @ CHR '':'' # rest" and "list_all schemeChar t"
          by (elim exE conjE)
        with True nonempty have "sch = pre @ (c # t) \<and> c # cs = (c # t) @ CHR '':'' # rest \<and>
            list_all schemeChar (c # t) \<and> (pre = [] \<longrightarrow> c # t \<noteq> [] \<and> isLetter (hd (c # t)))"
          by (auto simp: schemeChar_def)
        then show ?thesis
          by (rule exI)
      qed
    next
      case other: False
      show ?thesis
      proof (cases "c = CHR '':''")
        case True
        with False other Cons.prems have "pre \<noteq> []" and "sch = pre" and "rest = cs"
          by (auto split: if_splits)
        with True have "sch = pre @ [] \<and> c # cs = [] @ CHR '':'' # rest \<and>
            list_all schemeChar [] \<and> (pre = [] \<longrightarrow> [] \<noteq> [] \<and> isLetter (hd []))"
          by simp
        then show ?thesis
          by (rule exI)
      next
        case noColon: False
        with False other Cons.prems show ?thesis
          by auto
      qed
    qed
  qed
qed

lemma getScheme_found:
  assumes "getScheme raw = Inr (sch, rest)" and "sch \<noteq> []"
  shows "validScheme sch \<and> raw = sch @ CHR '':'' # rest"
proof -
  from assms have "getScheme_loop raw [] raw = Inr (sch, rest)"
    by (simp add: getScheme_def)
  from getScheme_loop_found [OF this assms(2)] obtain t where
    "sch = [] @ t" and "raw = t @ CHR '':'' # rest" and "list_all schemeChar t"
    and "[] = ([] :: string) \<longrightarrow> t \<noteq> [] \<and> isLetter (hd t)"
    by (elim exE conjE)
  then show ?thesis
    by (simp add: validScheme_def)
qed

lemma colon_not_schemeChar: "\<not> schemeChar CHR '':''"
  by (simp add: schemeChar_def isLetter_def isDigit_def byte_def)

lemma getScheme_loop_scan:
  assumes "list_all schemeChar t" and "pre \<noteq> []"
  shows "getScheme_loop raw pre (t @ CHR '':'' # rest) = Inr (pre @ t, rest)"
  using assms
proof (induction t arbitrary: pre)
  case Nil
  then show ?case
    using colon_not_schemeChar by (simp add: schemeChar_def)
next
  case (Cons c t)
  then have "getScheme_loop raw (pre @ [c]) (t @ CHR '':'' # rest) = Inr ((pre @ [c]) @ t, rest)"
    by simp
  with Cons.prems show ?case
    by (auto simp: schemeChar_def)
qed

lemma getScheme_of_valid:
  assumes "validScheme sch"
  shows "getScheme (sch @ CHR '':'' # rest) = Inr (sch, rest)"
proof -
  from assms obtain c t where sch: "sch = c # t" and "isLetter c" and "list_all schemeChar t"
    by (cases sch) (auto simp: validScheme_def)
  then show ?thesis
    using getScheme_loop_scan [of t "[c]" "sch @ CHR '':'' # rest" rest]
    by (simp add: getScheme_def)
qed

lemma isLetter_toLowerByte: "isLetter c \<Longrightarrow> isLetter (toLowerByte c)"
  by (auto simp: isLetter_def toLowerByte_def byte_def)

lemma schemeChar_toLowerByte: "schemeChar c \<Longrightarrow> schemeChar (toLowerByte c)"
proof (cases "isLetter c")
  case True
  then show ?thesis
    by (simp add: schemeChar_def isLetter_toLowerByte)
next
  case False
  assume "schemeChar c"
  with False have "toLowerByte c = c"
    by (auto simp: schemeChar_def isLetter_def toLowerByte_def)
  with \<open>schemeChar c\<close> show ?thesis
    by simp
qed

lemma validScheme_ToLower: "validScheme sch \<Longrightarrow> validScheme (ToLower sch)"
  by (cases sch)
     (auto simp: validScheme_def ToLower_def isLetter_toLowerByte schemeChar_toLowerByte
        list_all_iff)

lemma Scheme_setPath: "setPath u p = Inr u' \<Longrightarrow> Scheme u' = Scheme u"
  by (auto simp: setPath_def split: sum.splits)

lemma Scheme_setFragment: "setFragment u f = Inr u' \<Longrightarrow> Scheme u' = Scheme u"
  by (auto simp: setFragment_def split: sum.splits)

lemma Scheme_parse_rest: "parse_rest u rest v = Inr u' \<Longrightarrow> Scheme u' = Scheme u"
  by (auto simp: parse_rest_def Let_def split: sum.splits if_splits prod.splits
      dest!: Scheme_setPath)

lemma Scheme_parse:
  assumes "parse raw v = Inr u"
  shows "Scheme u = [] \<or> validScheme (Scheme u)"
proof (cases "getScheme raw")
  case (Inl err)
  with assms show ?thesis
    by (auto simp: parse_def new_URL_def split: if_splits)
next
  case (Inr p)
  obtain sch rest0 where p: "p = (sch, rest0)"
    by (cases p)
  have lower: "ToLower sch = [] \<or> validScheme (ToLower sch)"
  proof (cases "sch = []")
    case True
    then show ?thesis by (simp add: ToLower_def)
  next
    case False
    with Inr p getScheme_found [of raw sch rest0] show ?thesis
      by (simp add: validScheme_ToLower)
  qed
  from assms Inr p have "Scheme u = [] \<or> Scheme u = ToLower sch"
    by (auto simp: parse_def new_URL_def Let_def split: if_splits dest!: Scheme_parse_rest)
  with lower show ?thesis
    by auto
qed

lemma Scheme_url_Parse:
  assumes "url_Parse s = Inr u"
  shows "Scheme u = [] \<or> validScheme (Scheme u)"
  using assms
  by (auto simp: url_Parse_def Let_def split: sum.splits if_splits
      dest!: Scheme_setFragment dest: Scheme_parse)

lemma URL_String_scheme:
  assumes "Scheme u \<noteq> []"
  shows "\<exists>rest. URL_String u = Scheme u @ CHR '':'' # rest"
  using assms by (simp add: URL_String_def Let_def)

lemma validScheme_https: "validScheme ''https''"
  by (simp add: validScheme_def schemeChar_def isLetter_def byte_def)

lemma hash_not_schemeChar: "\<not> schemeChar CHR ''#''"
  by (simp add: schemeChar_def isLetter_def isDigit_def byte_def)

lemma before_fragment_scheme:
  assumes "list_all schemeChar sch"
  shows "\<exists>rest'. (case Cut (sch @ CHR '':'' # rest) ''#'' of None \<Rightarrow> sch @ CHR '':'' # rest
                   | Some (front, back) \<Rightarrow> front) = sch @ CHR '':'' # rest'"
proof -
  from assms hash_not_schemeChar have "CHR ''#'' \<notin> set sch"
    by (auto simp: list_all_iff)
  then have "takeWhile (\<lambda>x. x \<noteq> CHR ''#'') (sch @ CHR '':'' # rest) =
      sch @ CHR '':'' # takeWhile (\<lambda>x. x \<noteq> CHR ''#'') rest"
    by (induction sch) auto
  then show ?thesis
    by (simp add: Cut_byte)
qed

lemma Scheme_parse_lower:
  assumes "parse raw v = Inr u" and "getScheme raw = Inr (sch, rest0)" and "sch \<noteq> []"
  shows "Scheme u = ToLower sch"
proof -
  from getScheme_found [OF assms(2,3)] have "raw \<noteq> ''*''"
    by (cases sch) auto
  with assms(1,2) show ?thesis
    by (auto simp: parse_def new_URL_def Let_def split: if_splits dest!: Scheme_parse_rest)
qed

lemma Scheme_url_Parse_lower:
  assumes "url_Parse s = Inr u" and "getScheme s = Inr (sch, rest)" and "sch \<noteq> []"
  shows "Scheme u = ToLower sch"
proof -
  from getScheme_found [OF assms(2,3)] have valid: "validScheme sch" and s: "s = sch @ CHR '':'' # rest"
    by simp_all
  from valid have "list_all schemeChar sch"
    by (simp add: validScheme_def)
  from before_fragment_scheme [OF this, of rest] obtain rest' where
    cut: "(case Cut s ''#'' of None \<Rightarrow> s | Some (front, back) \<Rightarrow> front) = sch @ CHR '':'' # rest'"
    unfolding s by (elim exE)
  have gs: "getScheme (sch @ CHR '':'' # rest') = Inr (sch, rest')"
    using valid by (rule getScheme_of_valid)
  from assms(1) obtain u0 where p: "parse (sch @ CHR '':'' # rest') False = Inr u0"
    and "Scheme u = Scheme u0"
    unfolding url_Parse_def Let_def cut
    by (auto split: sum.splits if_splits dest!: Scheme_setFragment)
  with Scheme_parse_lower [OF p gs assms(3)] show ?thesis
    by simp
qed

lemma ToLower_lower_case:
  "list_all (\<lambda>c. \<not> (65 \<le> byte c \<and> byte c \<le> 90)) sch \<Longrightarrow> ToLower sch = sch"
  by (induction sch) (auto simp: ToLower_def toLowerByte_def)

lemma Cut_byte_Some:
  assumes "Cut s [c] = Some (front, back)"
  shows "s = front @ c # back"
proof -
  from assms have "c \<in> set s" and f: "front = takeWhile (\<lambda>x. x \<noteq> c) s"
    and b: "back = tl (dropWhile (\<lambda>x. x \<noteq> c) s)"
    by (auto simp: Cut_byte split: if_splits)
  from \<open>c \<in> set s\<close> have "dropWhile (\<lambda>x. x \<noteq> c) s \<noteq> []"
    by (induction s) auto
  moreover have "hd (dropWhile (\<lambda>x. x \<noteq> c) s) = c"
    using \<open>c \<in> set s\<close> by (induction s) auto
  ultimately have "dropWhile (\<lambda>x. x \<noteq> c) s = c # back"
    using b by (cases "dropWhile (\<lambda>x. x \<noteq> c) s") auto
  with f show ?thesis
    using takeWhile_dropWhile_id [of "\<lambda>x. x \<noteq> c" s] by simp
qed

lemma getScheme_append:
  assumes "getScheme t = Inr (sch, rest)" and "sch \<noteq> []"
  shows "getScheme (t @ x) = Inr (sch, rest @ x)"
proof -
  from getScheme_found [OF assms] have "validScheme sch" and "t = sch @ CHR '':'' # rest"
    by simp_all
  then show ?thesis
    using getScheme_of_valid [of sch "rest @ x"] by simp
qed

lemma Scheme_parse_getScheme:
  assumes "parse raw v = Inr u"
  shows "\<exists>sch rest. getScheme raw = Inr (sch, rest) \<and> Scheme u = ToLower sch"
proof (cases "raw = ''*''")
  case True
  have "getScheme ''*'' = Inr ([], ''*'')"
    by (simp add: getScheme_def isLetter_def isDigit_def byte_def)
  moreover from True assms have "Scheme u = []"
    by (auto simp: parse_def new_URL_def stringContainsCTLByte_def byte_def split: if_splits)
  ultimately have "getScheme raw = Inr ([], ''*'') \<and> Scheme u = ToLower []"
    using True by (simp add: ToLower_def)
  then show ?thesis
    by (intro exI)
next
  case False
  with assms obtain sch rest where "getScheme raw = Inr (sch, rest)"
    by (cases "getScheme raw") (auto simp: parse_def split: if_splits)
  moreover from this False assms have "Scheme u = ToLower sch"
    by (auto simp: parse_def new_URL_def Let_def split: if_splits dest!: Scheme_parse_rest)
  ultimately have "getScheme raw = Inr (sch, rest) \<and> Scheme u = ToLower sch"
    by simp
  then show ?thesis
    by (intro exI)
qed

lemma Scheme_url_Parse_getScheme:
  assumes "url_Parse s = Inr u" and "getScheme s = Inr (sch, rest)"
  shows "Scheme u = ToLower sch"
proof (cases "sch = []")
  case False
  with assms show ?thesis
    by (simp add: Scheme_url_Parse_lower)
next
  case True
  let ?u0 = "case Cut s ''#'' of None \<Rightarrow> s | Some (front, back) \<Rightarrow> front"
  from assms(1) obtain u0 where p: "parse ?u0 False = Inr u0" and su: "Scheme u = Scheme u0"
    unfolding url_Parse_def Let_def
    by (auto split: sum.splits if_splits dest!: Scheme_setFragment)
  from Scheme_parse_getScheme [OF p] obtain sch0 rest0 where
    g0: "getScheme ?u0 = Inr (sch0, rest0)" and s0: "Scheme u0 = ToLower sch0"
    by (elim exE conjE)
  have "sch0 = []"
  proof (rule ccontr)
    assume ne: "sch0 \<noteq> []"
    have "\<exists>x. s = ?u0 @ x"
    proof (cases "Cut s ''#''")
      case None
      then show ?thesis by simp
    next
      case (Some fb)
      obtain t1 t2 where fb: "fb = (t1, t2)"
        by (cases fb)
      with Some have "s = t1 @ CHR ''#'' # t2"
        using Cut_byte_Some [of s "CHR ''#''" t1 t2] by simp
      with Some fb show ?thesis
        by simp
    qed
    then obtain x where "s = ?u0 @ x"
      by (elim exE)
    with getScheme_append [OF g0 ne, of x] have "getScheme s = Inr (sch0, rest0 @ x)"
      by simp
    with assms(2) True ne show False
      by simp
  qed
  with su s0 True show ?thesis
    by simp
qed

lemma getURL_parsed_scheme:
  "(url_Parse s = Inl err \<longrightarrow> getURL s = Inl err) \<and>
   (url_Parse s = Inr u \<longrightarrow>
      (\<exists>rest. getURL s = Inr (URL_String (if Scheme u = [] then u\<lparr>Scheme := ''https''\<rparr> else u)) \<and>
         getScheme (URL_String (if Scheme u = [] then u\<lparr>Scheme := ''https''\<rparr> else u)) =
           Inr (if Scheme u = [] then ''https'' else Scheme u, rest)))"
proof (intro conjI impI)
  assume "url_Parse s = Inl err"
  then show "getURL s = Inl err"
    by (simp add: getURL_def)
next
  assume parsed: "url_Parse s = Inr u"
  let ?u = "if Scheme u = [] then u\<lparr>Scheme := ''https''\<rparr> else u"
  have out: "getURL s = Inr (URL_String ?u)"
    using parsed by (simp add: getURL_def)
  have sch: "Scheme ?u = (if Scheme u = [] then ''https'' else Scheme u)"
    by simp
  have valid: "validScheme (Scheme ?u)"
    using Scheme_url_Parse [OF parsed] by (auto simp: validScheme_https)
  then have "Scheme ?u \<noteq> []"
    by (simp add: validScheme_def)
  then have "\<exists>rest. URL_String ?u = Scheme ?u @ CHR '':'' # rest"
    by (rule URL_String_scheme)
  then obtain rest where str: "URL_String ?u = Scheme ?u @ CHR '':'' # rest"
    by (elim exE)
  have "getScheme (URL_String ?u) = Inr (Scheme ?u, rest)"
    unfolding str using valid by (rule getScheme_of_valid)
  with out have "getURL s = Inr (URL_String ?u) \<and>
      getScheme (URL_String ?u) = Inr (if Scheme u = [] then ''https'' else Scheme u, rest)"
    by (simp only: sch)
  then show "\<exists>rest. getURL s = Inr (URL_String ?u) \<and>
      getScheme (URL_String ?u) = Inr (if Scheme u = [] then ''https'' else Scheme u, rest)"
    by (rule exI)
qed

text \<open>
  Claim C5, as amended. When \<open>url.Parse\<close> fails, \<open>getURL\<close> returns its error.
  When it succeeds with the URL \<open>u\<close>, \<open>getURL\<close> returns the re-serialised form
  \<open>URL.String\<close> of \<open>u\<close>, with the scheme \<open>https\<close> put in when \<open>u\<close> has none.
  The scheme that \<open>getScheme\<close> reads from this output is \<open>https\<close> when it reads
  no scheme from the candidate, and otherwise the candidate's scheme in lower case:
  \<open>url.Parse\<close> lower-cases the scheme, so it is kept letter for letter only when
  the candidate writes it in lower case (\<open>ToLower_lower_case\<close>).
\<close>

theorem getURL_scheme:
  "(url_Parse s = Inl err \<longrightarrow> getURL s = Inl err) \<and>
   (url_Parse s = Inr u \<and> getScheme s = Inr (sch, rest0) \<longrightarrow>
      (\<exists>rest. getURL s = Inr (URL_String (if Scheme u = [] then u\<lparr>Scheme := ''https''\<rparr> else u)) \<and>
         getScheme (URL_String (if Scheme u = [] then u\<lparr>Scheme := ''https''\<rparr> else u)) =
           Inr (if sch = [] then ''https'' else ToLower sch, rest)))"
proof (intro conjI impI)
  assume "url_Parse s = Inl err"
  then show "getURL s = Inl err"
    by (simp add: getURL_def)
next
  assume "url_Parse s = Inr u \<and> getScheme s = Inr (sch, rest0)"
  then have parsed: "url_Parse s = Inr u" and cand: "getScheme s = Inr (sch, rest0)"
    by simp_all
  have lower: "Scheme u = ToLower sch"
    using parsed cand by (rule Scheme_url_Parse_getScheme)
  then have "(Scheme u = []) = (sch = [])"
    by (simp add: ToLower_def)
  with lower have "(if Scheme u = [] then ''https'' else Scheme u) =
      (if sch = [] then ''https'' else ToLower sch)"
    by simp
  with getURL_parsed_scheme [of s err u] parsed
  show "\<exists>rest. getURL s = Inr (URL_String (if Scheme u = [] then u\<lparr>Scheme := ''https''\<rparr> else u)) \<and>
         getScheme (URL_String (if Scheme u = [] then u\<lparr>Scheme := ''https''\<rparr> else u)) =
           Inr (if sch = [] then ''https'' else ToLower sch, rest)"
    by simp
qed

lemma getScheme_example_bare:
  "getScheme ''example.com/file.zip'' = Inr ([], ''example.com/file.zip'')"
  by code_simp

lemma getScheme_example_http: "getScheme ''http://x.com/a'' = Inr (''http'', ''//x.com/a'')"
  by code_simp

lemma getScheme_example_HTTP: "getScheme ''HTTP://x.com/a'' = Inr (''HTTP'', ''//x.com/a'')"
  by code_simp

lemma url_Parse_example_bare:
  "url_Parse ''example.com/file.zip'' = Inr (new_URL\<lparr>Path := ''example.com/file.zip''\<rparr>)"
  by code_simp

lemma url_Parse_example_http:
  "url_Parse ''http://x.com/a'' = Inr (new_URL\<lparr>Scheme := ''http'', Host := ''x.com'', Path := ''/a''\<rparr>)"
  by code_simp

lemma url_Parse_example_bad:
  "url_Parse ''%zz'' = Inl (URLError ''parse'' ''%zz'' (EscapeError ''%zz''))"
  by code_simp

lemma URL_String_example_bare:
  "URL_String (new_URL\<lparr>Path := ''example.com/file.zip'', Scheme := ''https''\<rparr>) =
     ''https://example.com/file.zip''"
  by code_simp

lemma URL_String_example_http:
  "URL_String (new_URL\<lparr>Scheme := ''http'', Host := ''x.com'', Path := ''/a''\<rparr>) = ''http://x.com/a''"
  by code_simp

lemma getURL_upper_case: "getURL ''HTTP://x.com/a'' = Inr ''http://x.com/a''"
  by code_simp

text \<open>
  The candidate \<open>HTTP://x.com/a\<close> has the explicit scheme \<open>HTTP\<close>; the output is
  \<open>http://x.com/a\<close>, whose scheme is \<open>http\<close>.
\<close>

theorem getURL_scheme_counterexample:
  "getScheme ''HTTP://x.com/a'' = Inr (''HTTP'', ''//x.com/a'') \<and>
   getURL ''HTTP://x.com/a'' = Inr ''http://x.com/a'' \<and>
   getScheme ''http://x.com/a'' = Inr (''http'', ''//x.com/a'') \<and>
   ''HTTP'' \<noteq> ''http''"
  by (simp add: getScheme_example_HTTP getURL_upper_case getScheme_example_http)

theorem getURL_scheme_witness:
  "getURL ''example.com/file.zip'' = Inr ''https://example.com/file.zip'' \<and>
   getURL ''http://x.com/a'' = Inr ''http://x.com/a'' \<and>
   getURL ''%zz'' = Inl (URLError ''parse'' ''%zz'' (EscapeError ''%zz''))"
proof (intro conjI)
  from getURL_scheme [of "''example.com/file.zip''" _
      "new_URL\<lparr>Path := ''example.com/file.zip''\<rparr>" "[]" "''example.com/file.zip''"]
  show "getURL ''example.com/file.zip'' = Inr ''https://example.com/file.zip''"
    using url_Parse_example_bare URL_String_example_bare getScheme_example_bare
    by (auto simp: new_URL_def)
next
  from getURL_scheme [of "''http://x.com/a''" _
      "new_URL\<lparr>Scheme := ''http'', Host := ''x.com'', Path := ''/a''\<rparr>" "''http''" "''//x.com/a''"]
  show "getURL ''http://x.com/a'' = Inr ''http://x.com/a''"
    using url_Parse_example_http URL_String_example_http getScheme_example_http
    by (auto simp: new_URL_def)
next
  from getURL_scheme [of "''%zz''" "URLError ''parse'' ''%zz'' (EscapeError ''%zz'')"]
  show "getURL ''%zz'' = Inl (URLError ''parse'' ''%zz'' (EscapeError ''%zz''))"
    using url_Parse_example_bad by simp
qed

end
